theory Spec2Isabelle
  imports Main "HOL-Library.AList"
begin

section \<open>Data model\<close>

text \<open>
  The server (\<^verbatim>\<open>ensureParents\<close>, \<^verbatim>\<open>buildGraphFromCommits\<close> and the route handler
  \<^verbatim>\<open>/api/graph/:owner/:repo\<close>) works on the commit objects of the hosting API. Only the
  fields the code reads are kept. An optional field is \<open>None\<close> where the JSON has no value.
\<close>

type_synonym commit_id = string
type_synonym branch_name = string

record commit =
  sha :: commit_id
  commit_author_name :: "string option"
  author_login :: "string option"
  commit_message :: "string option"
  commit_author_date :: "string option"
  parents :: "commit_id list option"

text \<open>
  A graph node. \<^verbatim>\<open>isMerge\<close> and \<^verbatim>\<open>isSplit\<close> do not exist on the object before the
  classification pass writes them; no code reads them earlier, and they are \<open>False\<close> until then.
\<close>

record node =
  node_id :: commit_id
  author :: string
  message :: string
  date :: string
  branches :: "branch_name list"
  parentShas :: "commit_id list"
  childShas :: "commit_id list"
  isMerge :: bool
  isSplit :: bool

record link =
  source :: commit_id
  target :: commit_id

record graph =
  nodes :: "node list"
  links :: "link list"

text \<open>
  A JavaScript \<^verbatim>\<open>Map\<close> iterates in insertion order, and \<^verbatim>\<open>set\<close> on a key that is
  present keeps the key's position: an association list with \<^const>\<open>AList.update\<close>
  (replace in place, else append) and \<^const>\<open>map_of\<close> for \<^verbatim>\<open>get\<close>.
\<close>

type_synonym nodemap = "(commit_id \<times> node) list"

text \<open>
  A JavaScript \<^verbatim>\<open>Set\<close> of strings, as the list of its elements in insertion order.
  \<^verbatim>\<open>new Set(xs)\<close> keeps the first occurrence of every element.
\<close>

definition set_add :: "'a list \<Rightarrow> 'a \<Rightarrow> 'a list" where
  "set_add xs x = (if x \<in> set xs then xs else xs @ [x])"

definition set_add_all :: "'a list \<Rightarrow> 'a list \<Rightarrow> 'a list" where
  "set_add_all acc xs = fold (\<lambda>x a. set_add a x) xs acc"

definition new_Set :: "'a list \<Rightarrow> 'a list" where
  "new_Set xs = set_add_all [] xs"

text \<open>\<^verbatim>\<open>a || b\<close> on an optional string: the empty string and a missing value are falsy.\<close>

definition js_or :: "string option \<Rightarrow> string \<Rightarrow> string" where
  "js_or a b = (case a of None \<Rightarrow> b | Some s \<Rightarrow> if s = [] then b else s)"

text \<open>
  A plain object used as a table of numbers (\<^verbatim>\<open>perBranchCounts\<close>, \<^verbatim>\<open>stats.branchCounts\<close>),
  as the map of its own properties, which is what the JSON response carries.
  \<^verbatim>\<open>obj[k] = v\<close> with a number \<open>v\<close> creates or overwrites the own property \<open>k\<close>, except for
  the key \<^verbatim>\<open>__proto__\<close>: there the assignment reaches the setter of
  \<^verbatim>\<open>Object.prototype\<close>, which ignores a value that is not an object, and nothing is stored.
\<close>

definition obj_set :: "string \<Rightarrow> 'v \<Rightarrow> (string \<rightharpoonup> 'v) \<Rightarrow> (string \<rightharpoonup> 'v)" where
  "obj_set k v obj = (if k = ''__proto__'' then obj else obj(k \<mapsto> v))"

section \<open>Graph builder: \<^verbatim>\<open>buildGraphFromCommits\<close>\<close>

subsection \<open>Pass 1: one node per commit\<close>

text \<open>\<^verbatim>\<open>c.parents?.map(p => p.sha) || []\<close>: the parent ids of a commit, none if the field is missing.\<close>

definition parentIds :: "commit \<Rightarrow> commit_id list" where
  "parentIds c = (case parents c of Some ps \<Rightarrow> ps | None \<Rightarrow> [])"

definition makeNode :: "(commit_id \<rightharpoonup> branch_name list) \<Rightarrow> commit \<Rightarrow> node" where
  "makeNode commitToBranches c =
     \<lparr> node_id = sha c,
       author = js_or (commit_author_name c) (js_or (author_login c) []),
       message = js_or (commit_message c) [],
       date = js_or (commit_author_date c) [],
       branches = (case commitToBranches (sha c) of Some bs \<Rightarrow> bs | None \<Rightarrow> []),
       parentShas = parentIds c,
       childShas = [],
       isMerge = False,
       isSplit = False \<rparr>"

definition createNodes :: "(commit_id \<rightharpoonup> branch_name list) \<Rightarrow> commit list \<Rightarrow> nodemap" where
  "createNodes commitToBranches commits =
     fold (\<lambda>c nb. AList.update (sha c) (makeNode commitToBranches c) nb) commits []"

subsection \<open>Pass 2: child lists, placeholder parents and links\<close>

definition placeholder :: "commit_id \<Rightarrow> branch_name list \<Rightarrow> node" where
  "placeholder parentSha inheritedBranches =
     \<lparr> node_id = parentSha, author = [], message = ''(parent)'', date = [],
       branches = inheritedBranches, parentShas = [], childShas = [],
       isMerge = False, isSplit = False \<rparr>"

text \<open>
  The body of the inner loop for one parent id. \<^verbatim>\<open>childNode\<close> is the object stored under
  \<^verbatim>\<open>childSha\<close>; the pass never replaces an object that is in the map, so reading the entry
  of the current map is reading that object.
\<close>

definition linkParent :: "commit_id \<Rightarrow> commit_id \<Rightarrow> nodemap \<times> link list \<Rightarrow> nodemap \<times> link list" where
  "linkParent childSha parentSha st =
     (let nb = fst st;
          inheritedBranches = (case map_of nb childSha of Some n \<Rightarrow> branches n | None \<Rightarrow> []);
          nb1 = (if map_of nb parentSha = None
                 then AList.update parentSha (placeholder parentSha inheritedBranches) nb
                 else nb);
          nb2 = (case map_of nb1 parentSha of
                   None \<Rightarrow> nb1
                 | Some parentNode \<Rightarrow>
                     if childSha \<in> set (childShas parentNode) then nb1
                     else AList.update parentSha
                            (parentNode\<lparr>childShas := childShas parentNode @ [childSha]\<rparr>) nb1)
      in (nb2, snd st @ [\<lparr>source = childSha, target = parentSha\<rparr>]))"

definition linkCommit :: "commit \<Rightarrow> nodemap \<times> link list \<Rightarrow> nodemap \<times> link list" where
  "linkCommit c st =
     (case parents c of
        None \<Rightarrow> st
      | Some ps \<Rightarrow> fold (linkParent (sha c)) ps st)"

definition linkCommits :: "commit list \<Rightarrow> nodemap \<Rightarrow> nodemap \<times> link list" where
  "linkCommits commits nb = fold linkCommit commits (nb, [])"

subsection \<open>Pass 3: branch propagation\<close>

text \<open>
  \<^verbatim>\<open>propagateBranchInfo\<close> is recursive over the parent lists, with one \<^verbatim>\<open>visited\<close> set
  shared by all calls of the pass. The state is the pair of that set and the node map;
  \<open>propagateParents\<close> is the \<^verbatim>\<open>for\<close> loop over \<^verbatim>\<open>node.parentShas\<close>.
\<close>

function propagateBranchInfo ::
    "commit_id \<Rightarrow> branch_name list \<Rightarrow> commit_id set \<times> nodemap \<Rightarrow> commit_id set \<times> nodemap"
  and propagateParents ::
    "commit_id list \<Rightarrow> branch_name list \<Rightarrow> commit_id set \<times> nodemap \<Rightarrow> commit_id set \<times> nodemap"
where
  "propagateBranchInfo s bs st =
     (if s \<in> fst st \<or> bs = [] then st
      else case map_of (snd st) s of
             None \<Rightarrow> (insert s (fst st), snd st)
           | Some n \<Rightarrow>
               propagateParents (parentShas n) bs
                 (insert s (fst st),
                  AList.update s (n\<lparr>branches := set_add_all (new_Set (branches n)) bs\<rparr>) (snd st)))"
| "propagateParents [] bs st = st"
| "propagateParents (p # ps) bs st = propagateParents ps bs (propagateBranchInfo p bs st)"
  by pat_completeness auto

definition unvisited :: "commit_id set \<times> nodemap \<Rightarrow> nat" where
  "unvisited st = card (set (map fst (snd st)) - fst st)"

lemma update_present_keys:
  "map_of nb k = Some n \<Longrightarrow> map fst (AList.update k n' nb) = map fst nb"
  by (simp add: update_keys) (metis domI dom_map_of_conv_image_fst)

lemma propagate_partial:
  "propagateBranchInfo_propagateParents_dom (Inl (s, bs, st)) \<Longrightarrow>
     map fst (snd (propagateBranchInfo s bs st)) = map fst (snd st) \<and>
     fst st \<subseteq> fst (propagateBranchInfo s bs st)"
  "propagateBranchInfo_propagateParents_dom (Inr (ps, bs, st)) \<Longrightarrow>
     map fst (snd (propagateParents ps bs st)) = map fst (snd st) \<and>
     fst st \<subseteq> fst (propagateParents ps bs st)"
proof (induct rule: propagateBranchInfo_propagateParents.pinduct)
  case (1 s bs st)
  show ?case
  proof (cases "s \<in> fst st \<or> bs = []")
    case True
    then show ?thesis using 1(1) by (simp add: propagateBranchInfo.psimps)
  next
    case False
    show ?thesis
    proof (cases "map_of (snd st) s")
      case None
      then show ?thesis using False 1(1) by (auto simp: propagateBranchInfo.psimps)
    next
      case (Some n)
      from 1(2)[OF False Some] False Some 1(1) show ?thesis
        by (auto simp: propagateBranchInfo.psimps update_present_keys)
    qed
  qed
next
  case (2 bs st)
  then show ?case by (simp add: propagateParents.psimps)
next
  case (3 p ps bs st)
  then show ?case by (auto simp: propagateParents.psimps)
qed

lemma unvisited_mono:
  assumes "map fst (snd st') = map fst (snd st)" and "fst st \<subseteq> fst st'"
  shows "unvisited st' \<le> unvisited st"
  unfolding unvisited_def using assms
  by (intro card_mono) auto

lemma unvisited_visit:
  assumes "map_of (snd st) s = Some n" and "s \<notin> fst st"
  shows "unvisited (insert s (fst st), AList.update s n' (snd st)) < unvisited st"
proof -
  have k: "s \<in> set (map fst (snd st))"
    using assms(1) by (metis domI dom_map_of_conv_image_fst set_map)
  have "set (map fst (snd st)) - insert s (fst st) \<subset> set (map fst (snd st)) - fst st"
    using k assms(2) by auto
  then show ?thesis
    unfolding unvisited_def
    by (simp add: update_present_keys [OF assms(1)] psubset_card_mono del: set_map)
qed

termination propagateBranchInfo
proof (relation "(\<lambda>x. case x of Inl (s, bs, st) \<Rightarrow> unvisited st | Inr (ps, bs, st) \<Rightarrow> unvisited st)
                 <*mlex*> measure (\<lambda>x. case x of Inl (s, bs, st) \<Rightarrow> 0 | Inr (ps, bs, st) \<Rightarrow> Suc (length ps))",
       goal_cases)
  case 1
  show ?case by (simp add: wf_mlex)
next
  case (2 s bs st n)
  then show ?case
    by (intro mlex_less) (simp add: unvisited_visit)
next
  case (3 p ps bs st)
  then show ?case by (intro mlex_leq) simp_all
next
  case (4 p ps bs st)
  then show ?case
    by (intro mlex_leq) (simp_all add: unvisited_mono propagate_partial(1))
qed

declare propagateBranchInfo.simps [simp del]

text \<open>
  The seeding loop \<^verbatim>\<open>for (const [sha, node] of nodesBySha)\<close>: the keys do not change during
  the pass, and \<^verbatim>\<open>node.branches\<close> is read when the key's turn comes.
\<close>

definition propagateSeed :: "commit_id \<Rightarrow> commit_id set \<times> nodemap \<Rightarrow> commit_id set \<times> nodemap" where
  "propagateSeed k st =
     (case map_of (snd st) k of
        None \<Rightarrow> st
      | Some n \<Rightarrow> if branches n \<noteq> [] then propagateBranchInfo k (branches n) st else st)"

definition propagateAll :: "nodemap \<Rightarrow> nodemap" where
  "propagateAll nb = snd (fold propagateSeed (map fst nb) ({}, nb))"

subsection \<open>Pass 4: merge and split flags\<close>

definition classify :: "node \<Rightarrow> node" where
  "classify n = n\<lparr>isMerge := 1 < length (parentShas n), isSplit := 1 < length (childShas n)\<rparr>"

definition buildGraphFromCommits ::
    "commit list \<Rightarrow> (commit_id \<rightharpoonup> branch_name list) \<Rightarrow> graph" where
  "buildGraphFromCommits commits commitToBranches =
     (let st = linkCommits commits (createNodes commitToBranches commits);
          nodesBySha = map (\<lambda>(k, n). (k, classify n)) (propagateAll (fst st))
      in \<lparr>nodes = map snd nodesBySha, links = snd st\<rparr>)"

section \<open>Commit collector\<close>

text \<open>
  The collection loop of the route handler of the server file. The provider is reached
  through two calls. Listing the commits of a branch page by page
  throws on a failed request, which aborts the whole route handler; fetching one commit by
  id is wrapped in \<^verbatim>\<open>try/catch\<close> by \<^verbatim>\<open>ensureParents\<close> and yields \<^verbatim>\<open>null\<close> on failure.
  A page whose data is \<^verbatim>\<open>null\<close> is treated by the code like the empty page.
\<close>

datatype error = ProviderError

type_synonym list_commits = "branch_name \<Rightarrow> nat \<Rightarrow> error + commit list"
type_synonym get_commit = "commit_id \<Rightarrow> commit option"

text \<open>The locals of the route handler that the collection loop mutates.\<close>

record collector =
  allCommits :: "commit list"
  seen :: "commit_id set"
  commitToBranches :: "commit_id \<rightharpoonup> branch_name list"
  perBranchCounts :: "branch_name \<rightharpoonup> nat"

text \<open>
  The body of \<^verbatim>\<open>for (const c of pageData)\<close> up to the budget test; the flag is
  \<^verbatim>\<open>branchSawExistingSHA\<close>. \<^verbatim>\<open>perBranchCounts[branchName] += 1\<close> reads the own property
  that the branch loop has set to 0 and writes it back incremented. For the branch name
  \<^verbatim>\<open>__proto__\<close> no own property exists (the read yields the prototype object) and the write
  is dropped like the first one, so the table stays as it is.
\<close>

definition acceptCommit :: "branch_name \<Rightarrow> commit \<Rightarrow> collector \<times> bool \<Rightarrow> collector \<times> bool" where
  "acceptCommit branchName c stb =
     (let st = fst stb;
          alreadySeen = (sha c \<in> seen st);
          existingSet = (case commitToBranches st (sha c) of Some bs \<Rightarrow> bs | None \<Rightarrow> []);
          st1 = st\<lparr>commitToBranches := (commitToBranches st)(sha c \<mapsto> set_add existingSet branchName)\<rparr>
      in if \<not> alreadySeen
         then (st1\<lparr>seen := insert (sha c) (seen st1),
                   allCommits := allCommits st1 @ [c],
                   perBranchCounts :=
                     (case perBranchCounts st1 branchName of
                        Some k \<Rightarrow> obj_set branchName (Suc k) (perBranchCounts st1)
                      | None \<Rightarrow> perBranchCounts st1)\<rparr>,
               snd stb)
         else (st1, True))"

fun processPage :: "int \<Rightarrow> branch_name \<Rightarrow> commit list \<Rightarrow> collector \<times> bool \<Rightarrow> collector \<times> bool" where
  "processPage maxCommits branchName [] stb = stb"
| "processPage maxCommits branchName (c # cs) stb =
     (let stb' = acceptCommit branchName c stb
      in if maxCommits \<le> int (length (allCommits (fst stb'))) then stb'
         else processPage maxCommits branchName cs stb')"

lemma acceptCommit_length:
  "length (allCommits (fst stb)) \<le> length (allCommits (fst (acceptCommit branchName c stb)))"
  by (simp add: acceptCommit_def Let_def)

lemma acceptCommit_flag:
  "snd stb \<Longrightarrow> snd (acceptCommit branchName c stb)"
  by (simp add: acceptCommit_def Let_def)

lemma acceptCommit_progress:
  "\<not> snd (acceptCommit branchName c stb) \<Longrightarrow>
     length (allCommits (fst (acceptCommit branchName c stb))) = Suc (length (allCommits (fst stb)))"
  by (simp add: acceptCommit_def Let_def split: if_splits)

lemma processPage_length:
  "length (allCommits (fst stb)) \<le> length (allCommits (fst (processPage maxCommits branchName cs stb)))"
proof (induction cs arbitrary: stb)
  case Nil
  show ?case by simp
next
  case (Cons c cs)
  show ?case
    using acceptCommit_length [of stb branchName c] Cons [of "acceptCommit branchName c stb"]
    by (simp add: Let_def)
qed

lemma processPage_flag:
  "snd stb \<Longrightarrow> snd (processPage maxCommits branchName cs stb)"
  by (induction cs arbitrary: stb) (simp_all add: Let_def acceptCommit_flag)

lemma processPage_progress:
  assumes "cs \<noteq> []" and "\<not> snd (processPage maxCommits branchName cs stb)"
  shows "length (allCommits (fst stb)) < length (allCommits (fst (processPage maxCommits branchName cs stb)))"
proof -
  obtain c cs' where cs: "cs = c # cs'"
    using assms(1) by (cases cs) auto
  let ?s = "acceptCommit branchName c stb"
  have "\<not> snd ?s"
    using assms(2) processPage_flag [of ?s maxCommits branchName cs']
    by (auto simp: cs Let_def split: if_splits)
  then have "length (allCommits (fst ?s)) = Suc (length (allCommits (fst stb)))"
    by (rule acceptCommit_progress)
  moreover have "length (allCommits (fst ?s)) \<le>
      length (allCommits (fst (processPage maxCommits branchName cs stb)))"
    using processPage_length [of ?s maxCommits branchName cs'] by (simp add: cs Let_def)
  ultimately show ?thesis by simp
qed

text \<open>
  The \<^verbatim>\<open>while (true)\<close> loop over the pages of one branch. It ends: a page that lets the loop
  go on has added a commit, and the loop stops once \<^verbatim>\<open>maxCommits\<close> commits are held.
\<close>

function collectPages ::
    "list_commits \<Rightarrow> int \<Rightarrow> branch_name \<Rightarrow> nat \<Rightarrow> collector \<times> bool \<Rightarrow> error + collector" where
  "collectPages listCommits maxCommits branchName page stb =
     (if maxCommits \<le> int (length (allCommits (fst stb))) then Inr (fst stb)
      else case listCommits branchName page of
             Inl e \<Rightarrow> Inl e
           | Inr pageData \<Rightarrow>
               if pageData = [] then Inr (fst stb)
               else let stb' = processPage maxCommits branchName pageData stb
                    in if snd stb' \<or> length pageData < 100 then Inr (fst stb')
                       else collectPages listCommits maxCommits branchName (page + 1) stb')"
  by pat_completeness auto
termination
proof (relation "measure (\<lambda>(listCommits, maxCommits, branchName, page, stb).
                   nat (maxCommits - int (length (allCommits (fst stb)))))", goal_cases)
  case 1
  show ?case by simp
next
  case (2 listCommits maxCommits branchName page stb pageData stb')
  then show ?case
    using processPage_progress [of pageData maxCommits branchName stb] by simp
qed

declare collectPages.simps [simp del]

text \<open>The loop over the selected branches, \<^verbatim>\<open>for (const branchName of branchTips)\<close>.\<close>

fun collectBranches :: "list_commits \<Rightarrow> int \<Rightarrow> branch_name list \<Rightarrow> collector \<Rightarrow> error + collector" where
  "collectBranches listCommits maxCommits [] st = Inr st"
| "collectBranches listCommits maxCommits (branchName # rest) st =
     (case collectPages listCommits maxCommits branchName 1
             (st\<lparr>perBranchCounts := obj_set branchName 0 (perBranchCounts st)\<rparr>, False) of
        Inl e \<Rightarrow> Inl e
      | Inr st' \<Rightarrow>
          if maxCommits \<le> int (length (allCommits st')) then Inr st'
          else collectBranches listCommits maxCommits rest st')"

definition emptyCollector :: collector where
  "emptyCollector = \<lparr>allCommits = [], seen = {}, commitToBranches = Map.empty,
                     perBranchCounts = Map.empty\<rparr>"

section \<open>Ancestor expander: \<^verbatim>\<open>ensureParents\<close>\<close>

type_synonym commitmap = "(commit_id \<times> commit) list"

definition bySha :: "commit list \<Rightarrow> commitmap" where
  "bySha cs = fold (\<lambda>c m. AList.update (sha c) c m) cs []"

definition missingParents :: "commit list \<Rightarrow> commitmap \<Rightarrow> commit_id list" where
  "missingParents initialCommits seenMap =
     fold (\<lambda>c acc. case parents c of
                     None \<Rightarrow> acc
                   | Some ps \<Rightarrow>
                       fold (\<lambda>p a. if p \<noteq> [] \<and> map_of seenMap p = None then set_add a p else a) ps acc)
          initialCommits []"

definition addFetched :: "commit option \<Rightarrow> commitmap \<times> nat \<Rightarrow> commitmap \<times> nat" where
  "addFetched r st =
     (case r of
        None \<Rightarrow> st
      | Some commit \<Rightarrow>
          if map_of (fst st) (sha commit) = None
          then (AList.update (sha commit) commit (fst st), snd st + 1)
          else st)"

text \<open>
  The batch loop. The requests of one batch are all answered before any result is added,
  and the results are taken in the order of the batch.
\<close>

function fetchBatches :: "get_commit \<Rightarrow> nat \<Rightarrow> commit_id list \<Rightarrow> commitmap \<times> nat \<Rightarrow> commitmap \<times> nat" where
  "fetchBatches getCommit maxFetch parentsToFetch st =
     (if parentsToFetch = [] then st
      else let batch = take 10 parentsToFetch;
               results = map getCommit batch;
               st' = fold addFetched results st
           in if maxFetch \<le> snd st' then st'
              else fetchBatches getCommit maxFetch (drop 10 parentsToFetch) st')"
  by pat_completeness auto
termination
  by (relation "measure (\<lambda>(getCommit, maxFetch, parentsToFetch, st). length parentsToFetch)") auto

declare fetchBatches.simps [simp del]

text \<open>The capped pool \<^verbatim>\<open>Array.from(missingParents).slice(0, Math.min(maxFetch, 200))\<close>.\<close>

definition parentsToFetch :: "commit list \<Rightarrow> nat \<Rightarrow> commit_id list" where
  "parentsToFetch initialCommits maxFetch =
     take (min maxFetch 200) (missingParents initialCommits (bySha initialCommits))"

definition ensureParents :: "commit list \<Rightarrow> get_commit \<Rightarrow> nat \<Rightarrow> commit list" where
  "ensureParents initialCommits getCommit maxFetch =
     map snd (fst (fetchBatches getCommit maxFetch (parentsToFetch initialCommits maxFetch)
                     (bySha initialCommits, 0)))"

section \<open>Statistics and the route handler\<close>

record stats =
  totalCommits :: nat
  pullRequests :: nat
  splitCommits :: nat
  authors :: nat
  branchCounts :: "branch_name \<rightharpoonup> nat"

definition computeStats :: "graph \<Rightarrow> branch_name list \<Rightarrow> stats" where
  "computeStats g branchTips =
     \<lparr> totalCommits = length (nodes g),
       pullRequests = length (filter isMerge (nodes g)),
       splitCommits = length (filter isSplit (nodes g)),
       authors = length (new_Set (filter (\<lambda>a. a \<noteq> []) (map author (nodes g)))),
       branchCounts =
         fold (\<lambda>branch obj.
                 obj_set branch (length (filter (\<lambda>n. branch \<in> set (branches n)) (nodes g))) obj)
              branchTips Map.empty \<rparr>"

record meta =
  fetchedBranches :: nat
  commits :: nat
  selectedBranches :: "branch_name list"
  perBranchCounts_meta :: "branch_name \<rightharpoonup> nat"
  stats_meta :: stats

record payload =
  meta :: meta
  graph :: graph

text \<open>
  The route handler from the selected branches on. The ranking of the branches that
  precedes the collection only decides \<^verbatim>\<open>branchTips\<close>, which is a parameter here, as are
  the two provider calls and the parsed \<^verbatim>\<open>maxCommits\<close> (an integer; a query string that
  does not parse as one is outside this model). A failed listing is the handler's
  \<^verbatim>\<open>catch\<close>: the error response, with no graph. The fields \<^verbatim>\<open>owner\<close>, \<^verbatim>\<open>repo\<close> and
  \<^verbatim>\<open>defaultBranch\<close> of \<^verbatim>\<open>meta\<close> are passed through and left out.
\<close>

definition buildGraph :: "list_commits \<Rightarrow> get_commit \<Rightarrow> int \<Rightarrow> branch_name list \<Rightarrow> error + payload" where
  "buildGraph listCommits getCommit maxCommits branchTips =
     (case collectBranches listCommits maxCommits branchTips emptyCollector of
        Inl e \<Rightarrow> Inl e
      | Inr st \<Rightarrow>
          let uniqueCommits = map snd (bySha (allCommits st));
              expandedCommits = ensureParents uniqueCommits getCommit 200;
              g = buildGraphFromCommits expandedCommits (commitToBranches st)
          in Inr \<lparr> meta = \<lparr> fetchedBranches = length branchTips,
                            commits = length uniqueCommits,
                            selectedBranches = branchTips,
                            perBranchCounts_meta = perBranchCounts st,
                            stats_meta = computeStats g branchTips \<rparr>,
                   graph = g \<rparr>)"

section \<open>The collection loop of the handler printed in the README\<close>

text \<open>
  \<^verbatim>\<open>src/README.md\<close> prints the server again, with comments. Its route handler is the one of
  the server file except for the collection loop: the printed loop computes
  \<^verbatim>\<open>commitsPerBranch\<close>, \<^verbatim>\<open>extraCommits\<close> and a \<^verbatim>\<open>branchQuota\<close> for every branch and tests
  them, where the loop of the server file (\<open>collectBranches\<close> above) tests only
  \<^verbatim>\<open>allCommits.length >= maxCommits\<close>.
\<close>

text \<open>
  The state of one branch's loop: the collector's tables, \<^verbatim>\<open>branchCommitCount\<close>,
  \<^verbatim>\<open>remainingGlobalCommits\<close> and \<^verbatim>\<open>branchSawExistingSHA\<close>.
\<close>

record quota_run =
  coll :: collector
  branchCommitCount :: nat
  remainingGlobalCommits :: int
  branchSawExistingSHA :: bool

text \<open>
  \<^verbatim>\<open>a % b\<close> on integers with \<open>b\<close> positive: the sign of the result is the sign of \<open>a\<close>.
  (With no selected branch the divisor is 0, and the loop that would use the result does
  not run.)
\<close>

definition js_rem :: "int \<Rightarrow> int \<Rightarrow> int" where
  "js_rem a b = (if a < 0 then - ((- a) mod b) else a mod b)"

text \<open>
  The body of the loop over a page up to the two tests that end it: a commit not seen
  before is accepted only while the branch's quota and the global counter both have room.
\<close>

definition acceptCommitQuota :: "branch_name \<Rightarrow> int \<Rightarrow> commit \<Rightarrow> quota_run \<Rightarrow> quota_run" where
  "acceptCommitQuota branchName branchQuota c q =
     (let st = coll q;
          alreadySeen = (sha c \<in> seen st);
          existingSet = (case commitToBranches st (sha c) of Some bs \<Rightarrow> bs | None \<Rightarrow> []);
          st1 = st\<lparr>commitToBranches := (commitToBranches st)(sha c \<mapsto> set_add existingSet branchName)\<rparr>
      in if \<not> alreadySeen
         then if int (branchCommitCount q) < branchQuota \<and> 0 < remainingGlobalCommits q
              then q\<lparr>coll := st1\<lparr>seen := insert (sha c) (seen st1),
                                   allCommits := allCommits st1 @ [c],
                                   perBranchCounts :=
                                     (case perBranchCounts st1 branchName of
                                        Some k \<Rightarrow> obj_set branchName (Suc k) (perBranchCounts st1)
                                      | None \<Rightarrow> perBranchCounts st1)\<rparr>,
                     branchCommitCount := Suc (branchCommitCount q),
                     remainingGlobalCommits := remainingGlobalCommits q - 1\<rparr>
              else q\<lparr>coll := st1\<rparr>
         else q\<lparr>coll := st1, branchSawExistingSHA := True\<rparr>)"

fun processPageQuota :: "branch_name \<Rightarrow> int \<Rightarrow> commit list \<Rightarrow> quota_run \<Rightarrow> quota_run" where
  "processPageQuota branchName branchQuota [] q = q"
| "processPageQuota branchName branchQuota (c # cs) q =
     (let q' = acceptCommitQuota branchName branchQuota c q
      in if branchQuota \<le> int (branchCommitCount q') then q'
         else if remainingGlobalCommits q' \<le> 0 then q'
         else processPageQuota branchName branchQuota cs q')"

lemma acceptCommitQuota_flag:
  "branchSawExistingSHA q \<Longrightarrow> branchSawExistingSHA (acceptCommitQuota branchName branchQuota c q)"
  by (simp add: acceptCommitQuota_def Let_def)

lemma acceptCommitQuota_remaining:
  "remainingGlobalCommits (acceptCommitQuota branchName branchQuota c q) \<le> remainingGlobalCommits q"
  by (simp add: acceptCommitQuota_def Let_def)

lemma acceptCommitQuota_progress:
  "\<not> branchSawExistingSHA (acceptCommitQuota branchName branchQuota c q) \<Longrightarrow>
   int (branchCommitCount q) < branchQuota \<Longrightarrow> 0 < remainingGlobalCommits q \<Longrightarrow>
     remainingGlobalCommits (acceptCommitQuota branchName branchQuota c q) < remainingGlobalCommits q"
  by (simp add: acceptCommitQuota_def Let_def split: if_splits)

lemma processPageQuota_flag:
  "branchSawExistingSHA q \<Longrightarrow> branchSawExistingSHA (processPageQuota branchName branchQuota cs q)"
  by (induction cs arbitrary: q) (simp_all add: Let_def acceptCommitQuota_flag)

lemma processPageQuota_remaining:
  "remainingGlobalCommits (processPageQuota branchName branchQuota cs q) \<le> remainingGlobalCommits q"
proof (induction cs arbitrary: q)
  case Nil
  show ?case by simp
next
  case (Cons c cs)
  show ?case
    using acceptCommitQuota_remaining [of branchName branchQuota c q]
          Cons [of "acceptCommitQuota branchName branchQuota c q"]
    by (simp add: Let_def)
qed

lemma processPageQuota_progress:
  assumes "cs \<noteq> []" and "\<not> branchSawExistingSHA (processPageQuota branchName branchQuota cs q)"
      and "int (branchCommitCount q) < branchQuota" and "0 < remainingGlobalCommits q"
  shows "remainingGlobalCommits (processPageQuota branchName branchQuota cs q) < remainingGlobalCommits q"
proof -
  obtain c cs' where cs: "cs = c # cs'"
    using assms(1) by (cases cs) auto
  let ?q = "acceptCommitQuota branchName branchQuota c q"
  have "\<not> branchSawExistingSHA ?q"
    using assms(2) processPageQuota_flag [of ?q branchName branchQuota cs']
    by (auto simp: cs Let_def split: if_splits)
  then have "remainingGlobalCommits ?q < remainingGlobalCommits q"
    using assms(3,4) by (rule acceptCommitQuota_progress)
  moreover have "remainingGlobalCommits (processPageQuota branchName branchQuota cs q)
                  \<le> remainingGlobalCommits ?q"
    using processPageQuota_remaining [of branchName branchQuota cs' ?q] by (simp add: cs Let_def)
  ultimately show ?thesis by simp
qed

text \<open>
  The \<^verbatim>\<open>while (true)\<close> loop of a branch. It ends: a page that lets it go on has accepted
  a commit, which lowers \<^verbatim>\<open>remainingGlobalCommits\<close>, and the loop stops at 0.
\<close>

function collectPagesQuota ::
    "list_commits \<Rightarrow> branch_name \<Rightarrow> int \<Rightarrow> nat \<Rightarrow> quota_run \<Rightarrow> error + quota_run" where
  "collectPagesQuota listCommits branchName branchQuota page q =
     (if branchQuota \<le> int (branchCommitCount q) then Inr q
      else if remainingGlobalCommits q \<le> 0 then Inr q
      else case listCommits branchName page of
             Inl e \<Rightarrow> Inl e
           | Inr pageData \<Rightarrow>
               if pageData = [] then Inr q
               else let q' = processPageQuota branchName branchQuota pageData q
                    in if branchQuota \<le> int (branchCommitCount q') then Inr q'
                       else if branchSawExistingSHA q' then Inr q'
                       else if length pageData < 100 then Inr q'
                       else collectPagesQuota listCommits branchName branchQuota (page + 1) q')"
  by pat_completeness auto
termination collectPagesQuota
proof (relation "measure (\<lambda>(listCommits, branchName, branchQuota, page, q).
                   nat (remainingGlobalCommits q))", goal_cases)
  case 1
  show ?case by simp
next
  case (2 listCommits branchName branchQuota page q pageData q')
  then show ?case
    using processPageQuota_progress [of pageData branchName branchQuota q] by simp
qed

declare collectPagesQuota.simps [simp del]



section \<open>Notions used in the statements and proofs\<close>

text \<open>
  The (child, parent) pairs in the order in which pass 2 meets them, and the effect of one
  round of its inner loop on the lookup function of the node map.
\<close>

definition edges :: "commit list \<Rightarrow> (commit_id \<times> commit_id) list" where
  "edges cs = concat (map (\<lambda>c. map (Pair (sha c)) (parentIds c)) cs)"

definition addChild :: "commit_id \<Rightarrow> commit_id \<Rightarrow> (commit_id \<rightharpoonup> node) \<Rightarrow> (commit_id \<rightharpoonup> node)" where
  "addChild c p m =
     (let base = (case m p of
                    Some n \<Rightarrow> n
                  | None \<Rightarrow> placeholder p (case m c of Some n \<Rightarrow> branches n | None \<Rightarrow> []))
      in m(p \<mapsto> base\<lparr>childShas := set_add (childShas base) c\<rparr>))"

text \<open>
  The node map after pass 2, before any branch is propagated, and the branch list that
  pass 1 gives to the node of a commit.
\<close>

definition linked :: "commit list \<Rightarrow> (commit_id \<rightharpoonup> branch_name list) \<Rightarrow> nodemap" where
  "linked cs ctb = fst (linkCommits cs (createNodes ctb cs))"

definition branchesOf :: "(commit_id \<rightharpoonup> branch_name list) \<Rightarrow> commit \<Rightarrow> branch_name list" where
  "branchesOf ctb c = (case ctb (sha c) of Some bs \<Rightarrow> bs | None \<Rightarrow> [])"

text \<open>
  \<open>grown n n'\<close>: the node \<open>n'\<close> is \<open>n\<close> with a branch list that contains the one of \<open>n\<close>;
  \<open>frame nb nb'\<close>: same keys in the same order, and every node has only grown.
\<close>

definition grown :: "node \<Rightarrow> node \<Rightarrow> bool" where
  "grown n n' \<longleftrightarrow> n' = n\<lparr>branches := branches n'\<rparr> \<and> set (branches n) \<subseteq> set (branches n')"

definition frame :: "nodemap \<Rightarrow> nodemap \<Rightarrow> bool" where
  "frame nb nb' \<longleftrightarrow>
     map fst nb' = map fst nb \<and>
     (\<forall>k n. map_of nb k = Some n \<longrightarrow> (\<exists>n'. map_of nb' k = Some n' \<and> grown n n'))"

text \<open>
  The quota that the specification's allocator gives to the branch at position \<open>i\<close> of \<open>B\<close>
  selected branches: \<open>floor(maxCommits / B)\<close>, plus one for the first \<open>maxCommits mod B\<close>
  branches. It follows the specification's words. The loop printed in the README computes
  the same number for a budget that is not negative (\<open>documented_quota_is_spec_quota\<close>);
  the loop of the server file computes none.
\<close>

definition spec_quota :: "int \<Rightarrow> nat \<Rightarrow> nat \<Rightarrow> int" where
  "spec_quota maxCommits B i =
     maxCommits div int B + (if int i < maxCommits mod int B then 1 else 0)"

section \<open>Sample histories\<close>

text \<open>
  Small provider answers on which the definitions above are run. \<open>demo_commit\<close> is a
  commit object with an author name, a message and the given parent ids.
\<close>

definition demo_commit :: "commit_id \<Rightarrow> commit_id list \<Rightarrow> commit" where
  "demo_commit s ps =
     \<lparr> sha = s, commit_author_name = Some ''ann'', author_login = None,
       commit_message = Some ''msg'', commit_author_date = None, parents = Some ps \<rparr>"

text \<open>
  Branch \<open>a\<close> points at the root commit \<open>r\<close>; branch \<open>b\<close> is one commit \<open>b1\<close> ahead of it.
  Both listings are short pages, as the provider returns them for such a repository.
\<close>

definition forked_listing :: list_commits where
  "forked_listing branchName page =
     (if branchName = ''a'' \<and> page = 1 then Inr [demo_commit ''r'' []]
      else if branchName = ''b'' \<and> page = 1
           then Inr [demo_commit ''b1'' [''r''], demo_commit ''r'' []]
      else Inr [])"


text \<open>One commit whose \<^verbatim>\<open>parents\<close> array names the same parent twice.\<close>

definition repeated_parent_listing :: list_commits where
  "repeated_parent_listing branchName page =
     (if branchName = ''a'' \<and> page = 1 then Inr [demo_commit ''c'' [''p'', ''p'']] else Inr [])"

text \<open>
  A line \<open>c\<close>, \<open>f\<close>, \<open>p\<close> on one branch; \<open>only_f\<close> is a provider that can fetch \<open>f\<close> by id and
  fails on every other id, \<open>no_commit\<close> one that fails on every id.
\<close>

definition chain_listing :: list_commits where
  "chain_listing branchName page =
     (if branchName = ''a'' \<and> page = 1
      then Inr [demo_commit ''c'' [''f''], demo_commit ''f'' [''p''], demo_commit ''p'' []]
      else Inr [])"

definition only_f :: get_commit where
  "only_f s = (if s = ''f'' then Some (demo_commit ''f'' [''p'']) else None)"

text \<open>A repository whose only selected branch is named \<^verbatim>\<open>__proto__\<close>, with one commit.\<close>

definition proto_listing :: list_commits where
  "proto_listing branchName page =
     (if branchName = ''__proto__'' \<and> page = 1 then Inr [demo_commit ''r'' []] else Inr [])"

definition no_commit :: get_commit where
  "no_commit s = None"

section \<open>Auxiliary facts\<close>

subsection \<open>Sets as insertion-ordered lists\<close>

lemma set_add_all_set: "set (set_add_all acc xs) = set acc \<union> set xs"
  unfolding set_add_all_def
  by (induction xs arbitrary: acc) (auto simp: set_add_def)

lemma set_add_all_distinct: "distinct acc \<Longrightarrow> distinct (set_add_all acc xs)"
  unfolding set_add_all_def
  by (induction xs arbitrary: acc) (auto simp: set_add_def)

lemma new_Set_length: "length (new_Set xs) = card (set xs)"
proof -
  have "distinct (new_Set xs)" and "set (new_Set xs) = set xs"
    by (simp_all add: new_Set_def set_add_all_distinct set_add_all_set)
  then show ?thesis by (metis distinct_card)
qed

subsection \<open>An exhausted budget\<close>

lemma collectPages_exhausted:
  "maxCommits \<le> int (length (allCommits (fst stb))) \<Longrightarrow>
     collectPages listCommits maxCommits branchName page stb = Inr (fst stb)"
  by (subst collectPages.simps) simp

lemma collectBranches_exhausted:
  "maxCommits \<le> int (length (allCommits st)) \<Longrightarrow>
     collectBranches listCommits maxCommits branchTips st =
       Inr (case branchTips of [] \<Rightarrow> st
            | branchName # rest \<Rightarrow> st\<lparr>perBranchCounts := obj_set branchName 0 (perBranchCounts st)\<rparr>)"
  by (cases branchTips) (simp_all add: collectPages_exhausted)

lemma ensureParents_Nil: "ensureParents [] getCommit maxFetch = []"
  by (simp add: ensureParents_def parentsToFetch_def bySha_def missingParents_def
                fetchBatches.simps)

lemma buildGraphFromCommits_Nil:
  "buildGraphFromCommits [] ctb = \<lparr>nodes = [], links = []\<rparr>"
  by (simp add: buildGraphFromCommits_def createNodes_def linkCommits_def propagateAll_def)

subsection \<open>The per-branch table of the statistics\<close>

lemma branchCounts_fold:
  "fold (\<lambda>branch obj. obj_set branch (f branch) obj) bs m0 b =
     (if b \<in> set bs \<and> b \<noteq> ''__proto__'' then Some (f b) else m0 b)"
  by (induction bs arbitrary: m0) (auto simp: obj_set_def)

subsection \<open>The budget and the counters of the collection loop\<close>

lemma acceptCommit_length_Suc:
  "length (allCommits (fst (acceptCommit branchName c stb))) \<le> Suc (length (allCommits (fst stb)))"
  by (simp add: acceptCommit_def Let_def)

lemma processPage_bound:
  "int (length (allCommits (fst stb))) < maxCommits \<Longrightarrow>
     int (length (allCommits (fst (processPage maxCommits branchName cs stb)))) \<le> maxCommits"
proof (induction cs arbitrary: stb)
  case Nil
  then show ?case by simp
next
  case (Cons c cs)
  show ?case
    using Cons.prems Cons.IH [of "acceptCommit branchName c stb"]
          acceptCommit_length_Suc [of branchName c stb]
    by (auto simp: Let_def)
qed

lemma collectPages_bound:
  "int (length (allCommits (fst stb))) \<le> maxCommits \<Longrightarrow>
   collectPages listCommits maxCommits branchName page stb = Inr st' \<Longrightarrow>
     int (length (allCommits st')) \<le> maxCommits"
proof (induction listCommits maxCommits branchName page stb rule: collectPages.induct)
  case (1 listCommits maxCommits branchName page stb)
  show ?case
  proof (cases "maxCommits \<le> int (length (allCommits (fst stb)))")
    case True
    then show ?thesis using 1(2,3) by (simp add: collectPages_exhausted)
  next
    case False
    then have lt: "int (length (allCommits (fst stb))) < maxCommits" by simp
    from 1(3) False obtain pageData where
      pd: "listCommits branchName page = Inr pageData"
      by (subst (asm) collectPages.simps) (auto split: sum.splits)
    let ?s = "processPage maxCommits branchName pageData stb"
    have b: "int (length (allCommits (fst ?s))) \<le> maxCommits"
      by (rule processPage_bound [OF lt])
    show ?thesis
    proof (cases "pageData = [] \<or> snd ?s \<or> length pageData < 100")
      case True
      then show ?thesis
        using 1(3) False pd b lt
        by (subst (asm) collectPages.simps) (auto simp: Let_def split: if_splits)
    next
      case stop: False
      then have "collectPages listCommits maxCommits branchName (page + 1) ?s = Inr st'"
        using 1(3) False pd
        by (subst (asm) collectPages.simps) (auto simp: Let_def)
      with 1(1) [OF False pd _ refl _ b] stop show ?thesis by auto
    qed
  qed
qed

lemma collectBranches_bound:
  "int (length (allCommits st)) \<le> maxCommits \<Longrightarrow>
   collectBranches listCommits maxCommits branchTips st = Inr st' \<Longrightarrow>
     int (length (allCommits st')) \<le> maxCommits"
proof (induction branchTips arbitrary: st)
  case Nil
  then show ?case by simp
next
  case (Cons b rest)
  let ?st0 = "st\<lparr>perBranchCounts := obj_set b 0 (perBranchCounts st)\<rparr>"
  from Cons.prems(2) obtain st1 where
    st1: "collectPages listCommits maxCommits b 1 (?st0, False) = Inr st1"
    by (auto split: sum.splits)
  have b1: "int (length (allCommits st1)) \<le> maxCommits"
    using collectPages_bound [OF _ st1] Cons.prems(1) by simp
  show ?case
  proof (cases "maxCommits \<le> int (length (allCommits st1))")
    case True
    then show ?thesis using Cons.prems(2) st1 b1 by simp
  next
    case False
    then show ?thesis using Cons.prems(2) st1 Cons.IH [OF b1] by simp
  qed
qed

lemma buildGraph_isl:
  "isl (buildGraph listCommits getCommit maxCommits branchTips) =
   isl (collectBranches listCommits maxCommits branchTips emptyCollector)"
  by (simp add: buildGraph_def Let_def split: sum.splits)

subsection \<open>Association lists\<close>

lemma update_absent: "map_of al k = None \<Longrightarrow> AList.update k v al = al @ [(k, v)]"
  by (induction al) (auto split: if_splits)

lemma fold_update_keys:
  "fst ` set (fold (\<lambda>c m. AList.update (f c) (g c) m) cs m0) = fst ` set m0 \<union> f ` set cs"
  by (induction cs arbitrary: m0) (auto simp: dom_update)

lemma fold_update_distinct:
  "distinct (map fst m0) \<Longrightarrow> distinct (map fst (fold (\<lambda>c m. AList.update (f c) (g c) m) cs m0))"
  by (induction cs arbitrary: m0) (auto simp: distinct_update)

lemma fold_update_Some:
  "map_of (fold (\<lambda>c m. AList.update (f c) (g c) m) cs m0) k = Some v \<Longrightarrow>
     map_of m0 k = Some v \<or> (\<exists>c \<in> set cs. f c = k \<and> v = g c)"
proof (induction cs arbitrary: m0)
  case Nil
  then show ?case by simp
next
  case (Cons c cs)
  from Cons.IH [of "AList.update (f c) (g c) m0"] Cons.prems
  show ?case by (auto simp: update_conv' split: if_splits)
qed

lemma fold_update_fresh:
  "distinct (map f cs) \<Longrightarrow> f ` set cs \<inter> fst ` set m0 = {} \<Longrightarrow>
     fold (\<lambda>c m. AList.update (f c) (g c) m) cs m0 = m0 @ map (\<lambda>c. (f c, g c)) cs"
proof (induction cs arbitrary: m0)
  case Nil
  then show ?case by simp
next
  case (Cons c cs)
  have "map_of m0 (f c) = None"
    using Cons.prems(2) by (auto simp: map_of_eq_None_iff)
  then have u: "AList.update (f c) (g c) m0 = m0 @ [(f c, g c)]"
    by (rule update_absent)
  have "fold (\<lambda>c m. AList.update (f c) (g c) m) cs (m0 @ [(f c, g c)]) =
          (m0 @ [(f c, g c)]) @ map (\<lambda>c. (f c, g c)) cs"
    using Cons.prems by (intro Cons.IH) auto
  then show ?case by (simp add: u)
qed

subsection \<open>Pass 1\<close>

lemma createNodes_keys: "fst ` set (createNodes ctb cs) = sha ` set cs"
  by (simp add: createNodes_def fold_update_keys)

lemma createNodes_distinct: "distinct (map fst (createNodes ctb cs))"
  by (simp add: createNodes_def fold_update_distinct)

lemma createNodes_Some:
  "map_of (createNodes ctb cs) k = Some n \<Longrightarrow> \<exists>c \<in> set cs. sha c = k \<and> n = makeNode ctb c"
  using fold_update_Some [of sha "makeNode ctb" cs "[]" k n]
  by (simp add: createNodes_def)

lemma createNodes_None: "k \<notin> sha ` set cs \<Longrightarrow> map_of (createNodes ctb cs) k = None"
  by (simp add: map_of_eq_None_iff createNodes_keys)

lemma createNodes_present:
  assumes "c \<in> set cs"
  shows "\<exists>c' \<in> set cs. sha c' = sha c \<and> map_of (createNodes ctb cs) (sha c) = Some (makeNode ctb c')"
proof -
  have "sha c \<in> fst ` set (createNodes ctb cs)"
    using assms by (simp add: createNodes_keys)
  then obtain n where "map_of (createNodes ctb cs) (sha c) = Some n"
    by (metis map_of_eq_None_iff not_Some_eq)
  with createNodes_Some [OF this] show ?thesis by auto
qed

subsection \<open>Pass 2\<close>

lemma linkParent_map_of: "map_of (fst (linkParent c p st)) = addChild c p (map_of (fst st))"
proof (cases "map_of (fst st) p")
  case None
  then show ?thesis
    by (simp add: linkParent_def addChild_def Let_def update_conv' placeholder_def set_add_def)
next
  case (Some n)
  then show ?thesis
    by (auto simp: linkParent_def addChild_def Let_def update_conv' set_add_def fun_upd_idem)
qed

lemma linkParent_links: "snd (linkParent c p st) = snd st @ [\<lparr>source = c, target = p\<rparr>]"
  by (simp add: linkParent_def Let_def)

lemma linkParent_distinct:
  "distinct (map fst (fst st)) \<Longrightarrow> distinct (map fst (fst (linkParent c p st)))"
  by (auto simp: linkParent_def Let_def distinct_update split: option.splits)

lemma linkCommit_fold: "linkCommit c st = fold (linkParent (sha c)) (parentIds c) st"
  by (simp add: linkCommit_def parentIds_def split: option.splits)

lemma fold_linkCommit_edges:
  "fold linkCommit cs st = fold (\<lambda>e. linkParent (fst e) (snd e)) (edges cs) st"
proof (induction cs arbitrary: st)
  case Nil
  show ?case by (simp add: edges_def)
next
  case (Cons c cs)
  have "fold (\<lambda>e. linkParent (fst e) (snd e)) (map (Pair (sha c)) (parentIds c)) st = linkCommit c st"
    by (simp add: linkCommit_fold fold_map comp_def)
  then show ?case
    using Cons.IH [of "linkCommit c st"] by (simp add: edges_def)
qed

lemma linkCommits_edges:
  "linkCommits cs nb = fold (\<lambda>e. linkParent (fst e) (snd e)) (edges cs) (nb, [])"
  by (simp add: linkCommits_def fold_linkCommit_edges)

lemma fold_linkParent_map_of:
  "map_of (fst (fold (\<lambda>e. linkParent (fst e) (snd e)) es st)) =
     fold (\<lambda>e. addChild (fst e) (snd e)) es (map_of (fst st))"
  by (induction es arbitrary: st) (simp_all add: linkParent_map_of)

lemma fold_linkParent_links:
  "snd (fold (\<lambda>e. linkParent (fst e) (snd e)) es st) =
     snd st @ map (\<lambda>e. \<lparr>source = fst e, target = snd e\<rparr>) es"
  by (induction es arbitrary: st) (simp_all add: linkParent_links)

lemma fold_linkParent_distinct:
  "distinct (map fst (fst st)) \<Longrightarrow>
     distinct (map fst (fst (fold (\<lambda>e. linkParent (fst e) (snd e)) es st)))"
  by (induction es arbitrary: st) (simp_all add: linkParent_distinct)

lemma addChild_other: "k \<noteq> p \<Longrightarrow> addChild c p m k = m k"
  by (simp add: addChild_def Let_def)

lemma addChild_existing:
  "m p = Some n \<Longrightarrow> addChild c p m p = Some (n\<lparr>childShas := set_add (childShas n) c\<rparr>)"
  by (simp add: addChild_def)

lemma addChild_new:
  "m p = None \<Longrightarrow>
   addChild c p m p =
     Some ((placeholder p (case m c of Some n \<Rightarrow> branches n | None \<Rightarrow> []))\<lparr>childShas := [c]\<rparr>)"
  by (simp add: addChild_def placeholder_def set_add_def)

lemma set_set_add: "set (set_add xs x) = insert x (set xs)"
  by (auto simp: set_add_def)

lemma addChildren_existing:
  "m k = Some n \<Longrightarrow>
     \<exists>ch. fold (\<lambda>e. addChild (fst e) (snd e)) es m k = Some (n\<lparr>childShas := ch\<rparr>) \<and>
          set ch = set (childShas n) \<union> {c. (c, k) \<in> set es}"
proof (induction es arbitrary: m n)
  case Nil
  then show ?case by (intro exI [of _ "childShas n"]) simp
next
  case (Cons e es)
  show ?case
  proof (cases "snd e = k")
    case True
    have "addChild (fst e) (snd e) m k = Some (n\<lparr>childShas := set_add (childShas n) (fst e)\<rparr>)"
      using Cons.prems True by (simp add: addChild_existing)
    then have "\<exists>ch. fold (\<lambda>e. addChild (fst e) (snd e)) es (addChild (fst e) (snd e) m) k =
                 Some (n\<lparr>childShas := set_add (childShas n) (fst e)\<rparr>\<lparr>childShas := ch\<rparr>) \<and>
               set ch = set (childShas (n\<lparr>childShas := set_add (childShas n) (fst e)\<rparr>)) \<union>
                        {c. (c, k) \<in> set es}"
      by (rule Cons.IH)
    with True show ?thesis
      by (cases e) (auto simp: set_set_add)
  next
    case False
    then have "addChild (fst e) (snd e) m k = Some n"
      using Cons.prems by (simp add: addChild_other)
    then have "\<exists>ch. fold (\<lambda>e. addChild (fst e) (snd e)) es (addChild (fst e) (snd e) m) k =
                 Some (n\<lparr>childShas := ch\<rparr>) \<and>
               set ch = set (childShas n) \<union> {c. (c, k) \<in> set es}"
      by (rule Cons.IH)
    with False show ?thesis
      by (cases e) auto
  qed
qed

lemma addChildren_absent:
  "m k = None \<Longrightarrow> k \<notin> snd ` set es \<Longrightarrow> fold (\<lambda>e. addChild (fst e) (snd e)) es m k = None"
  by (induction es arbitrary: m) (auto simp: addChild_other)

lemma addChild_branches:
  "m x = Some n \<Longrightarrow> \<exists>n'. addChild c p m x = Some n' \<and> branches n' = branches n"
  by (cases "x = p") (simp_all add: addChild_existing addChild_other)

lemma addChildren_placeholder:
  "m k = None \<Longrightarrow> k \<in> snd ` set es \<Longrightarrow> \<forall>e \<in> set es. fst e \<in> dom m \<Longrightarrow>
     \<exists>c0 n0 ch. find (\<lambda>e. snd e = k) es = Some (c0, k) \<and> m c0 = Some n0 \<and>
        fold (\<lambda>e. addChild (fst e) (snd e)) es m k =
          Some ((placeholder k (branches n0))\<lparr>childShas := ch\<rparr>) \<and>
        set ch = {c. (c, k) \<in> set es}"
proof (induction es arbitrary: m)
  case Nil
  then show ?case by simp
next
  case (Cons e es)
  obtain c p where e: "e = (c, p)" by (cases e)
  from Cons.prems(3) obtain nc where nc: "m c = Some nc"
    by (auto simp: e)
  show ?case
  proof (cases "p = k")
    case True
    have "addChild c p m k = Some ((placeholder k (branches nc))\<lparr>childShas := [c]\<rparr>)"
      using Cons.prems(1) True nc by (simp add: addChild_new)
    then have "\<exists>ch. fold (\<lambda>e. addChild (fst e) (snd e)) es (addChild c p m) k =
                 Some ((placeholder k (branches nc))\<lparr>childShas := [c]\<rparr>\<lparr>childShas := ch\<rparr>) \<and>
               set ch = set (childShas ((placeholder k (branches nc))\<lparr>childShas := [c]\<rparr>)) \<union>
                        {c. (c, k) \<in> set es}"
      by (rule addChildren_existing)
    with True nc show ?thesis
      by (auto simp: e)
  next
    case False
    have none: "addChild c p m k = None"
      using Cons.prems(1) False by (simp add: addChild_other)
    have mem: "k \<in> snd ` set es"
      using Cons.prems(2) False by (auto simp: e)
    have dom: "\<forall>e \<in> set es. fst e \<in> dom (addChild c p m)"
    proof
      fix e' assume "e' \<in> set es"
      then obtain n' where "m (fst e') = Some n'"
        using Cons.prems(3) by (auto simp: e)
      from addChild_branches [of m "fst e'" n' c p, OF this] show "fst e' \<in> dom (addChild c p m)"
        by auto
    qed
    have "\<exists>c0 n0 ch. find (\<lambda>e. snd e = k) es = Some (c0, k) \<and> addChild c p m c0 = Some n0 \<and>
        fold (\<lambda>e. addChild (fst e) (snd e)) es (addChild c p m) k =
          Some ((placeholder k (branches n0))\<lparr>childShas := ch\<rparr>) \<and>
        set ch = {c. (c, k) \<in> set es}"
      using none mem dom by (rule Cons.IH)
    then obtain c0 n0 ch where
      r: "find (\<lambda>e. snd e = k) es = Some (c0, k)" "addChild c p m c0 = Some n0"
         "fold (\<lambda>e. addChild (fst e) (snd e)) es (addChild c p m) k =
            Some ((placeholder k (branches n0))\<lparr>childShas := ch\<rparr>)"
         "set ch = {c. (c, k) \<in> set es}"
      by blast
    have "(c0, k) \<in> set es"
      using r(1) by (metis find_Some_iff nth_mem)
    then obtain m0 where m0: "m c0 = Some m0"
      using Cons.prems(3) by (auto simp: e)
    from addChild_branches [of m c0 m0 c p] m0 r(2) have "branches n0 = branches m0"
      by auto
    with r m0 False show ?thesis
      by (auto simp: e)
  qed
qed

subsection \<open>Pass 3 changes branch lists only, and only by adding\<close>

lemma grown_refl: "grown n n"
  by (simp add: grown_def)

lemma grown_trans: "grown a b \<Longrightarrow> grown b c \<Longrightarrow> grown a c"
  unfolding grown_def by (metis node.update_convs(5) order_trans node.surjective)

lemma frame_refl: "frame nb nb"
  by (simp add: frame_def grown_refl)

lemma frame_trans: "frame a b \<Longrightarrow> frame b c \<Longrightarrow> frame a c"
  unfolding frame_def by (metis grown_trans)

lemma frame_update:
  assumes "map_of nb s = Some n" and "set (branches n) \<subseteq> set bs'"
  shows "frame nb (AList.update s (n\<lparr>branches := bs'\<rparr>) nb)"
  unfolding frame_def using assms
  by (auto simp: update_present_keys update_conv' grown_def)

lemma new_Set_set: "set (new_Set xs) = set xs"
  by (simp add: new_Set_def set_add_all_set)

lemma propagate_frame:
  "frame (snd st) (snd (propagateBranchInfo s bs st))"
  "frame (snd st') (snd (propagateParents ps bs' st'))"
proof (induction s bs st and ps bs' st' rule: propagateBranchInfo_propagateParents.induct)
  case (1 s bs st)
  show ?case
  proof (cases "s \<in> fst st \<or> bs = []")
    case True
    then show ?thesis
      by (subst propagateBranchInfo.simps) (simp add: frame_refl)
  next
    case False
    show ?thesis
    proof (cases "map_of (snd st) s")
      case None
      then show ?thesis using False
        by (subst propagateBranchInfo.simps) (simp add: frame_refl)
    next
      case (Some n)
      let ?n = "n\<lparr>branches := set_add_all (new_Set (branches n)) bs\<rparr>"
      let ?st = "(insert s (fst st), AList.update s ?n (snd st))"
      have a: "frame (snd st) (snd ?st)"
        using frame_update [OF Some, of "set_add_all (new_Set (branches n)) bs"]
        by (simp add: set_add_all_set new_Set_set)
      have b: "frame (snd ?st) (snd (propagateParents (parentShas n) bs ?st))"
        using 1 [OF False Some] .
      have "propagateBranchInfo s bs st = propagateParents (parentShas n) bs ?st"
        using False Some by (subst propagateBranchInfo.simps) simp
      with frame_trans [OF a b] show ?thesis by simp
    qed
  qed
next
  case (2 bs st)
  show ?case by (simp add: frame_refl)
next
  case (3 p ps bs st)
  from frame_trans [OF 3(1) 3(2)] show ?case by simp
qed

lemma propagateSeed_frame: "frame (snd st) (snd (propagateSeed k st))"
  by (simp add: propagateSeed_def frame_refl propagate_frame(1) split: option.splits)

lemma fold_propagateSeed_frame: "frame (snd st) (snd (fold propagateSeed ks st))"
proof (induction ks arbitrary: st)
  case Nil
  show ?case by (simp add: frame_refl)
next
  case (Cons k ks)
  from frame_trans [OF propagateSeed_frame Cons [of "propagateSeed k st"]]
  show ?case by simp
qed

lemma propagateAll_frame: "frame nb (propagateAll nb)"
  using fold_propagateSeed_frame [of "({}, nb)" "map fst nb"]
  by (simp add: propagateAll_def)

subsection \<open>The node map after pass 2 and the returned graph\<close>

lemma graph_nodes:
  "nodes (buildGraphFromCommits cs ctb) = map (\<lambda>e. classify (snd e)) (propagateAll (linked cs ctb))"
  by (simp add: buildGraphFromCommits_def linked_def Let_def case_prod_beta comp_def)

lemma graph_links:
  "links (buildGraphFromCommits cs ctb) = map (\<lambda>e. \<lparr>source = fst e, target = snd e\<rparr>) (edges cs)"
  by (simp add: buildGraphFromCommits_def Let_def linkCommits_edges fold_linkParent_links)

lemma linked_distinct: "distinct (map fst (linked cs ctb))"
  by (simp add: linked_def linkCommits_edges fold_linkParent_distinct createNodes_distinct)

lemma linked_map_of:
  "map_of (linked cs ctb) =
     fold (\<lambda>e. addChild (fst e) (snd e)) (edges cs) (map_of (createNodes ctb cs))"
  by (simp add: linked_def linkCommits_edges fold_linkParent_map_of)

lemma graph_node_origin:
  assumes "n \<in> set (nodes (buildGraphFromCommits cs ctb))"
  shows "\<exists>k n2 n3. map_of (linked cs ctb) k = Some n2 \<and> grown n2 n3 \<and> n = classify n3"
proof -
  let ?nb3 = "propagateAll (linked cs ctb)"
  have fr: "frame (linked cs ctb) ?nb3" by (rule propagateAll_frame)
  then have keys: "map fst ?nb3 = map fst (linked cs ctb)" by (simp add: frame_def)
  from assms obtain k n3 where kn: "(k, n3) \<in> set ?nb3" "n = classify n3"
    by (auto simp: graph_nodes)
  have d3: "distinct (map fst ?nb3)" by (simp add: keys linked_distinct)
  have m3: "map_of ?nb3 k = Some n3" using kn(1) d3 by simp
  have "k \<in> fst ` set (linked cs ctb)"
    using kn(1) keys by (metis image_eqI fst_conv set_map)
  then obtain n2 where n2: "map_of (linked cs ctb) k = Some n2"
    by (metis map_of_eq_None_iff not_Some_eq)
  from fr n2 obtain n' where "map_of ?nb3 k = Some n'" "grown n2 n'"
    unfolding frame_def by blast
  with m3 have "grown n2 n3" by simp
  with n2 kn(2) show ?thesis by blast
qed

lemma graph_node_exists:
  assumes "map_of (linked cs ctb) k = Some n2"
  shows "\<exists>n3. grown n2 n3 \<and> classify n3 \<in> set (nodes (buildGraphFromCommits cs ctb))"
proof -
  let ?nb3 = "propagateAll (linked cs ctb)"
  have "frame (linked cs ctb) ?nb3" by (rule propagateAll_frame)
  with assms obtain n3 where n3: "map_of ?nb3 k = Some n3" "grown n2 n3"
    unfolding frame_def by blast
  then have "(k, n3) \<in> set ?nb3" by (simp add: map_of_SomeD)
  then have "classify n3 \<in> set (nodes (buildGraphFromCommits cs ctb))"
    by (force simp: graph_nodes)
  with n3(2) show ?thesis by blast
qed

lemma edges_iff: "(c, k) \<in> set (edges cs) \<longleftrightarrow> (\<exists>x \<in> set cs. c = sha x \<and> k \<in> set (parentIds x))"
  by (auto simp: edges_def)

lemma find_append_cases:
  "find P (xs @ ys) = (case find P xs of Some x \<Rightarrow> Some x | None \<Rightarrow> find P ys)"
  by (induction xs) auto

lemma find_parent_pairs:
  "find (\<lambda>e. snd e = k) (map (Pair s) ps) = (if k \<in> set ps then Some (s, k) else None)"
  by (induction ps) auto

lemma find_edges:
  "find (\<lambda>e. snd e = k) (edges cs) =
     map_option (\<lambda>x. (sha x, k)) (find (\<lambda>x. k \<in> set (parentIds x)) cs)"
proof (induction cs)
  case Nil
  show ?case by (simp add: edges_def)
next
  case (Cons c cs)
  have "edges (c # cs) = map (Pair (sha c)) (parentIds c) @ edges cs"
    by (simp add: edges_def)
  with Cons show ?case
    by (simp add: find_append_cases find_parent_pairs)
qed

lemma linked_real:
  assumes "c \<in> set cs"
  shows "\<exists>c' \<in> set cs. sha c' = sha c \<and>
           (\<exists>ch. map_of (linked cs ctb) (sha c) = Some ((makeNode ctb c')\<lparr>childShas := ch\<rparr>) \<and>
                 set ch = {sha x |x. x \<in> set cs \<and> sha c \<in> set (parentIds x)})"
proof -
  from createNodes_present [OF assms, of ctb] obtain c' where
    c': "c' \<in> set cs" "sha c' = sha c" "map_of (createNodes ctb cs) (sha c) = Some (makeNode ctb c')"
    by blast
  have "\<exists>ch. fold (\<lambda>e. addChild (fst e) (snd e)) (edges cs) (map_of (createNodes ctb cs)) (sha c) =
               Some ((makeNode ctb c')\<lparr>childShas := ch\<rparr>) \<and>
             set ch = set (childShas (makeNode ctb c')) \<union> {x. (x, sha c) \<in> set (edges cs)}"
    using c'(3) by (rule addChildren_existing)
  then obtain ch where
    ch: "map_of (linked cs ctb) (sha c) = Some ((makeNode ctb c')\<lparr>childShas := ch\<rparr>)"
        "set ch = set (childShas (makeNode ctb c')) \<union> {x. (x, sha c) \<in> set (edges cs)}"
    by (auto simp: linked_map_of)
  have "set ch = {sha x |x. x \<in> set cs \<and> sha c \<in> set (parentIds x)}"
    using ch(2) by (auto simp: makeNode_def edges_iff)
  with c' ch(1) show ?thesis by blast
qed

lemma linked_none:
  assumes "k \<notin> sha ` set cs" and "\<forall>c \<in> set cs. k \<notin> set (parentIds c)"
  shows "map_of (linked cs ctb) k = None"
proof -
  have "k \<notin> snd ` set (edges cs)"
    using assms(2) by (auto simp: edges_iff)
  with createNodes_None [OF assms(1), of ctb] show ?thesis
    by (simp add: linked_map_of addChildren_absent)
qed

lemma linked_placeholder:
  assumes "k \<notin> sha ` set cs" and "c \<in> set cs" and "k \<in> set (parentIds c)"
  shows "\<exists>c0 ch. find (\<lambda>x. k \<in> set (parentIds x)) cs = Some c0 \<and>
           map_of (linked cs ctb) k = Some ((placeholder k (branchesOf ctb c0))\<lparr>childShas := ch\<rparr>) \<and>
           set ch = {sha x |x. x \<in> set cs \<and> k \<in> set (parentIds x)}"
proof -
  let ?m = "map_of (createNodes ctb cs)"
  have none: "?m k = None" by (rule createNodes_None [OF assms(1)])
  have mem: "k \<in> snd ` set (edges cs)"
    using assms(2,3) edges_iff [of "sha c" k cs] by force
  have dom: "\<forall>e \<in> set (edges cs). fst e \<in> dom ?m"
  proof
    fix e assume "e \<in> set (edges cs)"
    then obtain x where "x \<in> set cs" "fst e = sha x"
      using edges_iff [of "fst e" "snd e" cs] by auto
    with createNodes_present [of x cs ctb] show "fst e \<in> dom ?m" by auto
  qed
  have "\<exists>c0 n0 ch. find (\<lambda>e. snd e = k) (edges cs) = Some (c0, k) \<and> ?m c0 = Some n0 \<and>
          fold (\<lambda>e. addChild (fst e) (snd e)) (edges cs) ?m k =
            Some ((placeholder k (branches n0))\<lparr>childShas := ch\<rparr>) \<and>
          set ch = {c. (c, k) \<in> set (edges cs)}"
    using none mem dom by (rule addChildren_placeholder)
  then obtain s0 n0 ch where
    r: "find (\<lambda>e. snd e = k) (edges cs) = Some (s0, k)" "?m s0 = Some n0"
       "map_of (linked cs ctb) k = Some ((placeholder k (branches n0))\<lparr>childShas := ch\<rparr>)"
       "set ch = {c. (c, k) \<in> set (edges cs)}"
    by (auto simp: linked_map_of)
  from r(1) obtain c0 where c0: "find (\<lambda>x. k \<in> set (parentIds x)) cs = Some c0" "s0 = sha c0"
    by (auto simp: find_edges)
  from createNodes_Some [OF r(2)] c0(2) have "branches n0 = branchesOf ctb c0"
    by (auto simp: makeNode_def branchesOf_def)
  moreover have "set ch = {sha x |x. x \<in> set cs \<and> k \<in> set (parentIds x)}"
    using r(4) by (auto simp: edges_iff)
  ultimately show ?thesis using r(3) c0(1) by auto
qed

lemma grown_fields:
  assumes "grown n n'"
  shows "node_id n' = node_id n" "author n' = author n" "message n' = message n"
        "date n' = date n" "parentShas n' = parentShas n" "childShas n' = childShas n"
        "set (branches n) \<subseteq> set (branches n')"
proof -
  from assms obtain bs where "n' = n\<lparr>branches := bs\<rparr>" "set (branches n) \<subseteq> set (branches n')"
    unfolding grown_def by blast
  then show "node_id n' = node_id n" "author n' = author n" "message n' = message n"
        "date n' = date n" "parentShas n' = parentShas n" "childShas n' = childShas n"
        "set (branches n) \<subseteq> set (branches n')"
    by simp_all
qed

lemma classify_fields:
  "node_id (classify n) = node_id n" "author (classify n) = author n"
  "message (classify n) = message n" "date (classify n) = date n"
  "branches (classify n) = branches n" "parentShas (classify n) = parentShas n"
  "childShas (classify n) = childShas n"
  "isMerge (classify n) = (1 < length (parentShas n))"
  "isSplit (classify n) = (1 < length (childShas n))"
  by (simp_all add: classify_def)

lemma linked_cases:
  assumes "map_of (linked cs ctb) k = Some n"
  shows "node_id n = k \<and>
         set (childShas n) = {sha x |x. x \<in> set cs \<and> k \<in> set (parentIds x)} \<and>
         (if k \<in> sha ` set cs
          then \<exists>c \<in> set cs. sha c = k \<and> parentShas n = parentIds c \<and> branches n = branchesOf ctb c
          else parentShas n = [] \<and> author n = [] \<and> message n = ''(parent)'' \<and> date n = [] \<and>
               (\<exists>c0. find (\<lambda>x. k \<in> set (parentIds x)) cs = Some c0 \<and>
                     branches n = branchesOf ctb c0))"
proof (cases "k \<in> sha ` set cs")
  case True
  then obtain c where c: "c \<in> set cs" "sha c = k" by auto
  from linked_real [OF c(1), of ctb] c(2) assms obtain c' ch where
    "c' \<in> set cs" "sha c' = k" "n = (makeNode ctb c')\<lparr>childShas := ch\<rparr>"
    "set ch = {sha x |x. x \<in> set cs \<and> k \<in> set (parentIds x)}"
    by auto
  then show ?thesis
    using True by (auto simp: makeNode_def branchesOf_def)
next
  case False
  have "\<exists>c \<in> set cs. k \<in> set (parentIds c)"
    using linked_none [OF False, of ctb] assms by auto
  then obtain c where c: "c \<in> set cs" "k \<in> set (parentIds c)" by blast
  from linked_placeholder [OF False c, of ctb] assms obtain c0 ch where
    "find (\<lambda>x. k \<in> set (parentIds x)) cs = Some c0"
    "n = (placeholder k (branchesOf ctb c0))\<lparr>childShas := ch\<rparr>"
    "set ch = {sha x |x. x \<in> set cs \<and> k \<in> set (parentIds x)}"
    by auto
  then show ?thesis
    using False by (simp add: placeholder_def)
qed

lemma placeholder_for_unfetched_parent_aux:
  assumes "c \<in> set cs" and "p \<in> set (parentIds c)" and "p \<notin> sha ` set cs"
  shows "\<exists>c0 n n2. find (\<lambda>x. p \<in> set (parentIds x)) cs = Some c0 \<and>
           map_of (linked cs ctb) p = Some n2 \<and> branches n2 = branchesOf ctb c0 \<and>
           n \<in> set (nodes (buildGraphFromCommits cs ctb)) \<and> node_id n = p \<and>
           author n = [] \<and> message n = ''(parent)'' \<and> date n = [] \<and> parentShas n = [] \<and>
           set (branchesOf ctb c0) \<subseteq> set (branches n)"
proof -
  from linked_placeholder [OF assms(3,1,2), of ctb] obtain c0 ch where
    l: "find (\<lambda>x. p \<in> set (parentIds x)) cs = Some c0"
       "map_of (linked cs ctb) p = Some ((placeholder p (branchesOf ctb c0))\<lparr>childShas := ch\<rparr>)"
    by blast
  let ?n2 = "(placeholder p (branchesOf ctb c0))\<lparr>childShas := ch\<rparr>"
  from graph_node_exists [OF l(2)] obtain n3 where
    n3: "grown ?n2 n3" "classify n3 \<in> set (nodes (buildGraphFromCommits cs ctb))"
    by blast
  show ?thesis
    using l n3(2) grown_fields [OF n3(1)]
    by (intro exI [of _ c0] exI [of _ "classify n3"] exI [of _ ?n2])
       (simp add: classify_fields placeholder_def)
qed

lemma bidirectional_of_distinct:
  assumes d: "distinct (map sha cs)"
      and a: "a \<in> set (nodes (buildGraphFromCommits cs ctb))"
      and b: "b \<in> set (nodes (buildGraphFromCommits cs ctb))"
  shows "node_id a \<in> set (parentShas b) \<longleftrightarrow> node_id b \<in> set (childShas a)"
proof -
  from graph_node_origin [OF a] obtain ka a2 a3 where
    oa: "map_of (linked cs ctb) ka = Some a2" "grown a2 a3" "a = classify a3"
    by blast
  from graph_node_origin [OF b] obtain kb b2 b3 where
    ob: "map_of (linked cs ctb) kb = Some b2" "grown b2 b3" "b = classify b3"
    by blast
  note la = linked_cases [OF oa(1)] and lb = linked_cases [OF ob(1)]
  have ida: "node_id a = ka" and cha: "set (childShas a) = {sha x |x. x \<in> set cs \<and> ka \<in> set (parentIds x)}"
    using la grown_fields [OF oa(2)] oa(3) by (simp_all add: classify_fields)
  have idb: "node_id b = kb" and pb: "parentShas b = parentShas b2"
    using lb grown_fields [OF ob(2)] ob(3) by (simp_all add: classify_fields)
  have inj: "inj_on sha (set cs)"
    using d by (simp add: distinct_map)
  show ?thesis
  proof
    assume "node_id a \<in> set (parentShas b)"
    then have m: "ka \<in> set (parentShas b2)" by (simp add: ida pb)
    then have "kb \<in> sha ` set cs"
      using lb by (auto split: if_splits)
    with lb m obtain c where "c \<in> set cs" "sha c = kb" "ka \<in> set (parentIds c)"
      by auto
    then show "node_id b \<in> set (childShas a)"
      unfolding idb cha by auto
  next
    assume "node_id b \<in> set (childShas a)"
    then obtain x where x: "x \<in> set cs" "sha x = kb" "ka \<in> set (parentIds x)"
      unfolding idb cha by auto
    then have "kb \<in> sha ` set cs" by auto
    with lb obtain c where c: "c \<in> set cs" "sha c = kb" "parentShas b2 = parentIds c"
      by auto
    with x inj have "c = x" by (auto dest: inj_onD)
    with c x show "node_id a \<in> set (parentShas b)"
      by (simp add: ida pb)
  qed
qed

lemma edges_distinct:
  "distinct (map sha cs) \<Longrightarrow> \<forall>c \<in> set cs. distinct (parentIds c) \<Longrightarrow> distinct (edges cs)"
proof (induction cs)
  case Nil
  show ?case by (simp add: edges_def)
next
  case (Cons c cs)
  have e: "edges (c # cs) = map (Pair (sha c)) (parentIds c) @ edges cs"
    by (simp add: edges_def)
  have "distinct (map (Pair (sha c)) (parentIds c))"
    using Cons.prems(2) by (simp add: distinct_map inj_on_def)
  moreover have "distinct (edges cs)"
    using Cons by simp
  moreover have "set (map (Pair (sha c)) (parentIds c)) \<inter> set (edges cs) = {}"
    using Cons.prems(1) by (auto simp: edges_iff)
  ultimately show ?case by (simp add: e)
qed

lemma links_distinct_without_repeats:
  assumes "distinct (map sha cs)" and "\<forall>c \<in> set cs. distinct (parentIds c)"
  shows "distinct (links (buildGraphFromCommits cs ctb))"
proof -
  have "inj (\<lambda>e :: commit_id \<times> commit_id. \<lparr>source = fst e, target = snd e\<rparr>)"
    by (auto simp: inj_on_def prod_eq_iff)
  then have "inj_on (\<lambda>e :: commit_id \<times> commit_id. \<lparr>source = fst e, target = snd e\<rparr>) (set (edges cs))"
    by (rule inj_on_subset) simp
  then show ?thesis
    using edges_distinct [OF assms] by (simp add: graph_links distinct_map)
qed

subsection \<open>The expander\<close>

lemma bySha_distinct: "distinct (map fst (bySha cs))"
  by (simp add: bySha_def fold_update_distinct)

lemma bySha_keys: "fst ` set (bySha cs) = sha ` set cs"
  by (simp add: bySha_def fold_update_keys)

lemma bySha_keyed: "(k, c) \<in> set (bySha cs) \<Longrightarrow> sha c = k"
proof -
  assume "(k, c) \<in> set (bySha cs)"
  then have "map_of (bySha cs) k = Some c"
    using bySha_distinct [of cs] by simp
  then show ?thesis
    using fold_update_Some [of sha "\<lambda>c. c" cs "[]" k c] by (auto simp: bySha_def)
qed

lemma bySha_fresh: "distinct (map sha cs) \<Longrightarrow> bySha cs = map (\<lambda>c. (sha c, c)) cs"
  using fold_update_fresh [of sha cs "[]" "\<lambda>c. c"] by (simp add: bySha_def)

lemma fold_addFetched:
  "\<exists>extra. fst (fold addFetched rs st) = fst st @ extra \<and>
           snd (fold addFetched rs st) = snd st + length extra \<and>
           length extra \<le> length rs \<and>
           (\<forall>e \<in> set extra. Some (snd e) \<in> set rs \<and> fst e = sha (snd e)) \<and>
           (\<forall>c. Some c \<in> set rs \<longrightarrow> sha c \<in> fst ` set (fst st @ extra)) \<and>
           (distinct (map fst (fst st)) \<longrightarrow> distinct (map fst (fst st @ extra)))"
proof (induction rs arbitrary: st)
  case Nil
  show ?case by (intro exI [of _ "[]"]) simp
next
  case (Cons r rs)
  define s1 where "s1 = addFetched r st"
  have step: "fold addFetched (r # rs) st = fold addFetched rs s1"
    by (simp add: s1_def)
  from Cons [of s1] obtain extra where
    e: "fst (fold addFetched rs s1) = fst s1 @ extra"
       "snd (fold addFetched rs s1) = snd s1 + length extra"
       "length extra \<le> length rs"
       "\<forall>e \<in> set extra. Some (snd e) \<in> set rs \<and> fst e = sha (snd e)"
       "\<forall>c. Some c \<in> set rs \<longrightarrow> sha c \<in> fst ` set (fst s1 @ extra)"
       "distinct (map fst (fst s1)) \<longrightarrow> distinct (map fst (fst s1 @ extra))"
    by blast
  show ?case
  proof (cases "\<exists>c. r = Some c \<and> map_of (fst st) (sha c) = None")
    case True
    then obtain c where c: "r = Some c" "map_of (fst st) (sha c) = None" by blast
    then have s: "fst s1 = fst st @ [(sha c, c)]" "snd s1 = snd st + 1"
      by (simp_all add: s1_def addFetched_def update_absent)
    have fresh: "sha c \<notin> fst ` set (fst st)"
      using c(2) by (simp add: map_of_eq_None_iff)
    have d: "distinct (map fst (fst st)) \<longrightarrow> distinct (map fst (fst s1))"
      using fresh by (simp add: s)
    show ?thesis
      unfolding step
    proof (intro exI [of _ "(sha c, c) # extra"] conjI)
      show "fst (fold addFetched rs s1) = fst st @ (sha c, c) # extra"
        using e(1) s(1) by simp
      show "snd (fold addFetched rs s1) = snd st + length ((sha c, c) # extra)"
        using e(2) s(2) by simp
      show "length ((sha c, c) # extra) \<le> length (r # rs)"
        using e(3) by simp
      show "\<forall>e\<in>set ((sha c, c) # extra). Some (snd e) \<in> set (r # rs) \<and> fst e = sha (snd e)"
        using e(4) c(1) by simp
      show "\<forall>c'. Some c' \<in> set (r # rs) \<longrightarrow> sha c' \<in> fst ` set (fst st @ (sha c, c) # extra)"
        using e(5) c(1) s(1) by auto
      show "distinct (map fst (fst st)) \<longrightarrow> distinct (map fst (fst st @ (sha c, c) # extra))"
        using e(6) d s(1) by simp
    qed
  next
    case False
    then have s: "s1 = st"
      by (auto simp: s1_def addFetched_def split: option.splits)
    have known: "\<forall>c. r = Some c \<longrightarrow> sha c \<in> fst ` set (fst st)"
      using False by (auto simp: map_of_eq_None_iff)
    show ?thesis
      unfolding step
    proof (intro exI [of _ extra] conjI)
      show "fst (fold addFetched rs s1) = fst st @ extra"
        using e(1) s by simp
      show "snd (fold addFetched rs s1) = snd st + length extra"
        using e(2) s by simp
      show "length extra \<le> length (r # rs)"
        using e(3) by simp
      show "\<forall>e\<in>set extra. Some (snd e) \<in> set (r # rs) \<and> fst e = sha (snd e)"
        using e(4) by simp
      show "\<forall>c'. Some c' \<in> set (r # rs) \<longrightarrow> sha c' \<in> fst ` set (fst st @ extra)"
        using e(5) known s by auto
      show "distinct (map fst (fst st)) \<longrightarrow> distinct (map fst (fst st @ extra))"
        using e(6) s by simp
    qed
  qed
qed

lemma fold_addFetched_count: "snd (fold addFetched rs st) \<le> snd st + length rs"
  using fold_addFetched [of rs st] by auto

lemma fetchBatches_fold:
  "snd st + length ps \<le> maxFetch \<Longrightarrow>
     fetchBatches getCommit maxFetch ps st = fold addFetched (map getCommit ps) st"
proof (induction getCommit maxFetch ps st rule: fetchBatches.induct)
  case (1 getCommit maxFetch ps st)
  show ?case
  proof (cases "ps = []")
    case True
    then show ?thesis by (subst fetchBatches.simps) simp
  next
    case False
    let ?s = "fold addFetched (map getCommit (take 10 ps)) st"
    have cnt: "snd ?s \<le> snd st + length (take 10 ps)"
      using fold_addFetched_count [of "map getCommit (take 10 ps)" st] by simp
    have split: "fold addFetched (map getCommit ps) st =
                   fold addFetched (map getCommit (drop 10 ps)) ?s"
      by (metis append_take_drop_id fold_append map_append comp_apply)
    show ?thesis
    proof (cases "maxFetch \<le> snd ?s")
      case True
      then have "length ps \<le> length (take 10 ps)"
        using cnt 1(2) by linarith
      then have all: "take 10 ps = ps" by simp
      have "fetchBatches getCommit maxFetch ps st = ?s"
        using True False by (subst fetchBatches.simps) (simp add: Let_def)
      then show ?thesis
        by (simp only: all)
    next
      case more: False
      have "snd ?s + length (drop 10 ps) \<le> maxFetch"
        using cnt 1(2) by simp
      from 1(1) [OF False refl refl refl more this]
      have ih: "fetchBatches getCommit maxFetch (drop 10 ps) ?s =
                  fold addFetched (map getCommit (drop 10 ps)) ?s" .
      have "fetchBatches getCommit maxFetch ps st = fetchBatches getCommit maxFetch (drop 10 ps) ?s"
        using more False by (subst fetchBatches.simps) (simp add: Let_def)
      then show ?thesis
        by (simp only: ih split)
    qed
  qed
qed

lemma parentsToFetch_length: "length (parentsToFetch cs maxFetch) \<le> maxFetch"
  by (simp add: parentsToFetch_def)

lemma ensureParents_fold:
  "ensureParents cs getCommit maxFetch =
     map snd (fst (fold addFetched (map getCommit (parentsToFetch cs maxFetch)) (bySha cs, 0)))"
  using parentsToFetch_length [of cs maxFetch]
  by (simp add: ensureParents_def fetchBatches_fold)

lemma missing_inner:
  "x \<in> set (fold (\<lambda>p a. if p \<noteq> [] \<and> map_of seenMap p = None then set_add a p else a) ps a0) \<Longrightarrow>
     x \<in> set a0 \<or> (x \<in> set ps \<and> map_of seenMap x = None)"
proof (induction ps arbitrary: a0)
  case Nil
  then show ?case by simp
next
  case (Cons p ps)
  from Cons.IH [of "if p \<noteq> [] \<and> map_of seenMap p = None then set_add a0 p else a0"] Cons.prems
  show ?case by (auto simp: set_set_add split: if_splits)
qed

lemma missing_outer:
  "x \<in> set (fold (\<lambda>c acc. case parents c of None \<Rightarrow> acc
                | Some ps \<Rightarrow> fold (\<lambda>p a. if p \<noteq> [] \<and> map_of seenMap p = None then set_add a p else a) ps acc)
          cs acc0) \<Longrightarrow>
     x \<in> set acc0 \<or> ((\<exists>c \<in> set cs. x \<in> set (parentIds c)) \<and> map_of seenMap x = None)"
proof (induction cs arbitrary: acc0)
  case Nil
  then show ?case by simp
next
  case (Cons c cs)
  show ?case
  proof (cases "parents c")
    case None
    with Cons.IH [of acc0] Cons.prems show ?thesis by auto
  next
    case (Some ps)
    then have p: "parentIds c = ps" by (simp add: parentIds_def)
    let ?a = "fold (\<lambda>p a. if p \<noteq> [] \<and> map_of seenMap p = None then set_add a p else a) ps acc0"
    from Cons.IH [of ?a] Cons.prems Some
    have "x \<in> set ?a \<or> ((\<exists>c \<in> set cs. x \<in> set (parentIds c)) \<and> map_of seenMap x = None)"
      by simp
    with missing_inner [of x seenMap ps acc0] p show ?thesis by auto
  qed
qed

lemma parentsToFetch_subset:
  assumes "p \<in> set (parentsToFetch cs maxFetch)"
  shows "(\<exists>c \<in> set cs. p \<in> set (parentIds c)) \<and> p \<notin> sha ` set cs"
proof -
  have "p \<in> set (missingParents cs (bySha cs))"
    using assms by (auto simp: parentsToFetch_def dest: in_set_takeD)
  then have "(\<exists>c \<in> set cs. p \<in> set (parentIds c)) \<and> map_of (bySha cs) p = None"
    using missing_outer [of p "bySha cs" cs "[]"] by (simp add: missingParents_def)
  then show ?thesis
    by (simp add: map_of_eq_None_iff bySha_keys)
qed

lemma ensureParents_distinct: "distinct (map sha (ensureParents cs getCommit maxFetch))"
proof -
  let ?rs = "map getCommit (parentsToFetch cs maxFetch)"
  from fold_addFetched [of ?rs "(bySha cs, 0)"] obtain extra where
    e: "fst (fold addFetched ?rs (bySha cs, 0)) = bySha cs @ extra"
       "\<forall>e \<in> set extra. Some (snd e) \<in> set ?rs \<and> fst e = sha (snd e)"
       "distinct (map fst (bySha cs @ extra))"
    using bySha_distinct [of cs] by auto
  have "\<forall>x \<in> set (bySha cs @ extra). sha (snd x) = fst x"
    using e(2) bySha_keyed [of _ _ cs] by auto
  then have "map sha (map snd (bySha cs @ extra)) = map fst (bySha cs @ extra)"
    unfolding map_map by (intro map_cong) auto
  then have "distinct (map sha (map snd (bySha cs @ extra)))"
    using e(3) by (simp only:)
  then show ?thesis
    by (simp only: ensureParents_fold e(1))
qed

lemma unique_commits_distinct: "distinct (map sha (map snd (bySha cs)))"
proof -
  have "\<forall>x \<in> set (bySha cs). sha (snd x) = fst x"
    using bySha_keyed [of _ _ cs] by auto
  then have "map sha (map snd (bySha cs)) = map fst (bySha cs)"
    unfolding map_map by (intro map_cong) auto
  then show ?thesis
    using bySha_distinct [of cs] by (simp only:)
qed

subsection \<open>The quota of the loop printed in the README\<close>

lemma acceptCommitQuota_count:
  "int (branchCommitCount (acceptCommitQuota branchName branchQuota c q))
     \<le> max (int (branchCommitCount q)) branchQuota \<and>
   length (allCommits (coll (acceptCommitQuota branchName branchQuota c q))) + branchCommitCount q =
     length (allCommits (coll q)) + branchCommitCount (acceptCommitQuota branchName branchQuota c q)"
  by (simp add: acceptCommitQuota_def Let_def)

lemma processPageQuota_count:
  "int (branchCommitCount (processPageQuota branchName branchQuota cs q))
     \<le> max (int (branchCommitCount q)) branchQuota \<and>
   length (allCommits (coll (processPageQuota branchName branchQuota cs q))) + branchCommitCount q =
     length (allCommits (coll q)) + branchCommitCount (processPageQuota branchName branchQuota cs q)"
proof (induction cs arbitrary: q)
  case Nil
  show ?case by simp
next
  case (Cons c cs)
  show ?case
    using acceptCommitQuota_count [of branchName branchQuota c q]
          Cons [of "acceptCommitQuota branchName branchQuota c q"]
    by (auto simp: Let_def)
qed

lemma collectPagesQuota_count:
  "collectPagesQuota listCommits branchName branchQuota page q = Inr q' \<Longrightarrow>
     int (branchCommitCount q') \<le> max (int (branchCommitCount q)) branchQuota \<and>
     length (allCommits (coll q')) + branchCommitCount q =
       length (allCommits (coll q)) + branchCommitCount q'"
proof (induction listCommits branchName branchQuota page q rule: collectPagesQuota.induct)
  case (1 listCommits branchName branchQuota page q)
  show ?case
  proof (cases "branchQuota \<le> int (branchCommitCount q) \<or> remainingGlobalCommits q \<le> 0")
    case True
    then have "q' = q"
      using 1(2) by (subst (asm) collectPagesQuota.simps) (auto split: if_splits)
    then show ?thesis by simp
  next
    case False
    then have f1: "\<not> branchQuota \<le> int (branchCommitCount q)" and f2: "\<not> remainingGlobalCommits q \<le> 0"
      by auto
    from 1(2) False obtain pageData where
      pd: "listCommits branchName page = Inr pageData"
      by (subst (asm) collectPagesQuota.simps) (auto split: sum.splits)
    let ?q = "processPageQuota branchName branchQuota pageData q"
    note c = processPageQuota_count [of branchName branchQuota pageData q]
    show ?thesis
    proof (cases "pageData = [] \<or> branchQuota \<le> int (branchCommitCount ?q) \<or>
                  branchSawExistingSHA ?q \<or> length pageData < 100")
      case True
      then have "q' = q \<or> q' = ?q"
        using 1(2) False pd
        by (subst (asm) collectPagesQuota.simps) (auto simp: Let_def split: if_splits)
      with c show ?thesis by auto
    next
      case more: False
      then have "collectPagesQuota listCommits branchName branchQuota (page + 1) ?q = Inr q'"
        using 1(2) False pd
        by (subst (asm) collectPagesQuota.simps) (auto simp: Let_def)
      with 1(1) [OF f1 f2 pd _ refl] more
      have "int (branchCommitCount q') \<le> max (int (branchCommitCount ?q)) branchQuota \<and>
            length (allCommits (coll q')) + branchCommitCount ?q =
              length (allCommits (coll ?q)) + branchCommitCount q'"
        by auto
      with c show ?thesis by auto
    qed
  qed
qed

lemma documented_loop_within_quota:
  assumes "collectPagesQuota listCommits branchName branchQuota 1
             \<lparr>coll = st, branchCommitCount = 0, remainingGlobalCommits = r,
              branchSawExistingSHA = False\<rparr> = Inr q'"
      and "0 \<le> branchQuota"
  shows "length (allCommits (coll q')) = length (allCommits st) + branchCommitCount q' \<and>
         int (branchCommitCount q') \<le> branchQuota"
  using collectPagesQuota_count [OF assms(1)] assms(2) by simp

lemma documented_quota_is_spec_quota:
  "0 \<le> maxCommits \<Longrightarrow>
     maxCommits div int B + (if int i < js_rem maxCommits (int B) then 1 else 0) =
       spec_quota maxCommits B i"
  by (simp add: js_rem_def spec_quota_def)

subsection \<open>The statistics of a successful response\<close>

text \<open>
  All counts agree with the returned graph, the per-branch table for every selected branch
  whose name is not \<^verbatim>\<open>__proto__\<close>.
\<close>

lemma stats_agree_except_proto:
  assumes "buildGraph listCommits getCommit maxCommits branchTips = Inr p"
  shows "totalCommits (stats_meta (meta p)) = length (nodes (graph p)) \<and>
         pullRequests (stats_meta (meta p)) =
           card {i. i < length (nodes (graph p)) \<and> isMerge (nodes (graph p) ! i)} \<and>
         splitCommits (stats_meta (meta p)) =
           card {i. i < length (nodes (graph p)) \<and> isSplit (nodes (graph p) ! i)} \<and>
         authors (stats_meta (meta p)) = card (author ` set (nodes (graph p)) - {[]}) \<and>
         selectedBranches (meta p) = branchTips \<and>
         (\<forall>b \<in> set branchTips. b \<noteq> ''__proto__'' \<longrightarrow>
            branchCounts (stats_meta (meta p)) b =
              Some (card {i. i < length (nodes (graph p)) \<and>
                             b \<in> set (branches (nodes (graph p) ! i))}))"
proof -
  obtain st where st: "collectBranches listCommits maxCommits branchTips emptyCollector = Inr st"
    using assms by (auto simp: buildGraph_def split: sum.splits)
  define g where "g = buildGraphFromCommits
      (ensureParents (map snd (bySha (allCommits st))) getCommit 200) (commitToBranches st)"
  have p: "graph p = g" "stats_meta (meta p) = computeStats g branchTips"
          "selectedBranches (meta p) = branchTips"
    using assms by (auto simp: buildGraph_def st g_def Let_def)
  have a: "{a \<in> set (map author (nodes g)). a \<noteq> []} = author ` set (nodes g) - {[]}"
    by auto
  show ?thesis
    unfolding p
    by (simp add: computeStats_def length_filter_conv_card new_Set_length branchCounts_fold a
             del: set_map)
qed

section \<open>The claims\<close>

text \<open>
  C1. In every returned graph, when a node carries a branch name, every node reachable from
  it along \<^verbatim>\<open>parentShas\<close> carries that name too, whatever the order in which the seeds of
  the propagation pass are taken. The code does not achieve this. Evaluated: with a budget
  of two commits, branch \<open>a\<close> at the root \<open>r\<close> and branch \<open>b\<close> one commit \<open>b1\<close> ahead of it,
  the seed \<open>r\<close> is taken first and enters the shared \<^verbatim>\<open>visited\<close> set; the walk from \<open>b1\<close>
  then returns at \<open>r\<close> without adding \<open>b\<close>. The returned node \<open>b1\<close> carries \<open>b\<close>, its parent
  \<open>r\<close> carries only \<open>a\<close>.
\<close>

theorem propagation_skips_visited_ancestor:
  "\<not> isl (buildGraph forked_listing no_commit 2 [''a'', ''b'']) \<and>
   map (\<lambda>n. (node_id n, parentShas n, branches n))
       (nodes (graph (projr (buildGraph forked_listing no_commit 2 [''a'', ''b''])))) =
     [(''r'', [], [''a'']), (''b1'', [''r''], [''b''])]"
  by code_simp


text \<open>
  C3. The links of a returned graph contain no pair (source, target) twice, also when a
  commit names the same parent more than once. The code does not achieve this: the guard
  with \<^verbatim>\<open>includes\<close> protects \<^verbatim>\<open>childShas\<close> only, and \<^verbatim>\<open>links.push\<close> runs for every entry of
  the parent array. Evaluated on a commit \<open>c\<close> whose parents are \<open>p\<close>, \<open>p\<close>. (When the
  commit ids are distinct and no commit repeats a parent id, the links are distinct:
  \<open>links_distinct_without_repeats\<close>.)
\<close>

theorem repeated_parent_duplicates_link:
  "\<not> isl (buildGraph repeated_parent_listing no_commit 300 [''a'']) \<and>
   links (graph (projr (buildGraph repeated_parent_listing no_commit 300 [''a'']))) =
     [\<lparr>source = ''c'', target = ''p''\<rparr>, \<lparr>source = ''c'', target = ''p''\<rparr>] \<and>
   \<not> distinct (links (graph (projr (buildGraph repeated_parent_listing no_commit 300 [''a'']))))"
  by code_simp

text \<open>
  C4, as the specification states it: the placeholder of a parent that was never fetched has
  the empty string as author, message and date, and its branches are the ones inherited at
  creation. Evaluated on the line \<open>c\<close>, \<open>f\<close>, \<open>p\<close> with a budget of one commit (\<open>c\<close> is
  collected, \<open>f\<close> is fetched by the expander, \<open>p\<close> is never fetched): the returned
  placeholder \<open>p\<close> has the message \<^verbatim>\<open>(parent)\<close>, and it carries the branch \<open>a\<close>, although
  at its creation it inherited the empty branch list of \<open>f\<close>.
\<close>

theorem placeholder_message_is_sentinel:
  "\<not> isl (buildGraph chain_listing only_f 1 [''a'']) \<and>
   nodes (graph (projr (buildGraph chain_listing only_f 1 [''a'']))) ! 2 =
     \<lparr> node_id = ''p'', author = [], message = ''(parent)'', date = [],
       branches = [''a''], parentShas = [], childShas = [''f''],
       isMerge = False, isSplit = False \<rparr> \<and>
   message (nodes (graph (projr (buildGraph chain_listing only_f 1 [''a'']))) ! 2) \<noteq> [] \<and>
   ensureParents
     (map snd (bySha (allCommits (projr (collectBranches chain_listing 1 [''a''] emptyCollector)))))
     only_f 200 = [demo_commit ''c'' [''f''], demo_commit ''f'' [''p'']] \<and>
   map_option branches
     (map_of (linked [demo_commit ''c'' [''f''], demo_commit ''f'' [''p'']]
                (commitToBranches (projr (collectBranches chain_listing 1 [''a''] emptyCollector))))
        ''p'')
     = Some []"
  by code_simp

text \<open>
  C4, amended. For every parent id that a commit of the expanded set names and that is not
  the id of a commit of that set, the returned graph has a node with that id, with empty
  author and date, the message \<^verbatim>\<open>(parent)\<close> and no parents. At the end of pass 2 its
  branches are those of the first commit, in processing order, that names it; the returned
  branches contain them (branch propagation may have added others).
\<close>

theorem placeholder_for_unfetched_parent:
  assumes "c \<in> set cs" and "p \<in> set (parentIds c)" and "p \<notin> sha ` set cs"
  shows "\<exists>c0 n n2. find (\<lambda>x. p \<in> set (parentIds x)) cs = Some c0 \<and>
           map_of (linked cs ctb) p = Some n2 \<and> branches n2 = branchesOf ctb c0 \<and>
           n \<in> set (nodes (buildGraphFromCommits cs ctb)) \<and> node_id n = p \<and>
           author n = [] \<and> message n = ''(parent)'' \<and> date n = [] \<and> parentShas n = [] \<and>
           set (branchesOf ctb c0) \<subseteq> set (branches n)"
  using assms by (rule placeholder_for_unfetched_parent_aux)

theorem placeholder_for_unfetched_parent_witness:
  "demo_commit ''c'' [''p'', ''q''] \<in> set [demo_commit ''c'' [''p'', ''q'']] \<and>
   ''p'' \<in> set (parentIds (demo_commit ''c'' [''p'', ''q''])) \<and>
   ''p'' \<notin> sha ` set [demo_commit ''c'' [''p'', ''q'']] \<and>
   (\<exists>c0 n n2. find (\<lambda>x. ''p'' \<in> set (parentIds x)) [demo_commit ''c'' [''p'', ''q'']] = Some c0 \<and>
           map_of (linked [demo_commit ''c'' [''p'', ''q'']] [''c'' \<mapsto> [''a'']]) ''p'' = Some n2 \<and>
           branches n2 = branchesOf [''c'' \<mapsto> [''a'']] c0 \<and>
           n \<in> set (nodes (buildGraphFromCommits [demo_commit ''c'' [''p'', ''q'']] [''c'' \<mapsto> [''a'']])) \<and>
           node_id n = ''p'' \<and>
           author n = [] \<and> message n = ''(parent)'' \<and> date n = [] \<and> parentShas n = [] \<and>
           set (branchesOf [''c'' \<mapsto> [''a'']] c0) \<subseteq> set (branches n))"
proof -
  let ?c = "demo_commit ''c'' [''p'', ''q'']"
  have h1: "?c \<in> set [?c]" by simp
  have h2: "''p'' \<in> set (parentIds ?c)" by (simp add: parentIds_def demo_commit_def)
  have h3: "''p'' \<notin> sha ` set [?c]" by (simp add: demo_commit_def)
  from placeholder_for_unfetched_parent [OF h1 h2 h3, of "[''c'' \<mapsto> [''a'']]"] h1 h2 h3
  show ?thesis by blast
qed

text \<open>
  C5. The number of commits accepted into the working set never exceeds \<^verbatim>\<open>maxCommits\<close>,
  whatever pages the provider returns. The provider's answers are arbitrary here, so the
  working set at any moment of a run is the final working set of the run in which the
  provider's answers end at that moment; the working set only grows. (For a negative
  \<^verbatim>\<open>maxCommits\<close> nothing is accepted at all, see C10.)
\<close>

theorem collected_within_budget:
  assumes "0 \<le> maxCommits"
      and "collectBranches listCommits maxCommits branchTips emptyCollector = Inr st"
  shows "int (length (allCommits st)) \<le> maxCommits"
  using collectBranches_bound [OF _ assms(2)] assms(1) by (simp add: emptyCollector_def)

theorem collected_within_budget_witness:
  "(0::int) \<le> 2 \<and>
   (\<exists>st. collectBranches forked_listing 2 [''a'', ''b''] emptyCollector = Inr st \<and>
         int (length (allCommits st)) \<le> 2)"
proof -
  let ?r = "collectBranches forked_listing 2 [''a'', ''b''] emptyCollector"
  have "\<not> isl ?r" by code_simp
  then obtain st where r: "?r = Inr st" by (cases ?r) auto
  have h: "(0::int) \<le> 2" by simp
  from collected_within_budget [OF h r] r show ?thesis by simp
qed

text \<open>
  C6. In every returned graph and for all nodes \<open>a\<close> and \<open>b\<close> of it, the id of \<open>a\<close> is among
  the \<^verbatim>\<open>parentShas\<close> of \<open>b\<close> exactly when the id of \<open>b\<close> is among the \<^verbatim>\<open>childShas\<close> of \<open>a\<close>.
  The graph builder is called on the expander's output, whose commit ids are distinct.
\<close>

theorem parent_child_bidirectional:
  assumes "buildGraph listCommits getCommit maxCommits branchTips = Inr p"
  shows "\<forall>a \<in> set (nodes (graph p)). \<forall>b \<in> set (nodes (graph p)).
           (node_id a \<in> set (parentShas b)) = (node_id b \<in> set (childShas a))"
proof -
  obtain st where st: "collectBranches listCommits maxCommits branchTips emptyCollector = Inr st"
    using assms by (auto simp: buildGraph_def split: sum.splits)
  define cs where "cs = ensureParents (map snd (bySha (allCommits st))) getCommit 200"
  have g: "graph p = buildGraphFromCommits cs (commitToBranches st)"
    using assms by (auto simp: buildGraph_def st cs_def Let_def)
  have "distinct (map sha cs)"
    unfolding cs_def by (rule ensureParents_distinct)
  then show ?thesis
    unfolding g by (intro ballI bidirectional_of_distinct)
qed

theorem parent_child_bidirectional_witness:
  "\<exists>p. buildGraph forked_listing no_commit 300 [''a'', ''b''] = Inr p \<and>
       length (nodes (graph p)) = 2 \<and>
       node_id (nodes (graph p) ! 0) \<in> set (parentShas (nodes (graph p) ! 1)) \<and>
       node_id (nodes (graph p) ! 1) \<in> set (childShas (nodes (graph p) ! 0))"
proof -
  let ?r = "buildGraph forked_listing no_commit 300 [''a'', ''b'']"
  have ev: "\<not> isl ?r \<and> length (nodes (graph (projr ?r))) = 2 \<and>
            node_id (nodes (graph (projr ?r)) ! 0) \<in> set (parentShas (nodes (graph (projr ?r)) ! 1))"
    by code_simp
  then obtain p where p: "?r = Inr p" by (cases ?r) auto
  have len: "length (nodes (graph p)) = 2"
    and par: "node_id (nodes (graph p) ! 0) \<in> set (parentShas (nodes (graph p) ! 1))"
    using ev p by simp_all
  have a: "nodes (graph p) ! 0 \<in> set (nodes (graph p))"
    and b: "nodes (graph p) ! 1 \<in> set (nodes (graph p))"
    using len by simp_all
  from parent_child_bidirectional [OF p] a b par
  have "node_id (nodes (graph p) ! 1) \<in> set (childShas (nodes (graph p) ! 0))"
    by blast
  with p len par show ?thesis by blast
qed

text \<open>
  C7. The statistics of a successful response agree with the finished graph: total, merge
  count, split count, author count, and for every selected branch the number of nodes whose
  branch list contains it. All of this holds except for one branch name
  (\<open>stats_agree_except_proto\<close>): \<^verbatim>\<open>stats.branchCounts\<close> is a plain object, and the count of
  a selected branch named \<^verbatim>\<open>__proto__\<close> is never stored in it. Evaluated on a repository
  whose selected branch has that name: the one node of the graph carries the branch, and
  the table has no count for it.
\<close>

theorem proto_branch_has_no_count:
  "\<not> isl (buildGraph proto_listing no_commit 300 [''__proto__'']) \<and>
   selectedBranches (meta (projr (buildGraph proto_listing no_commit 300 [''__proto__''])))
     = [''__proto__''] \<and>
   map (\<lambda>n. (node_id n, branches n))
       (nodes (graph (projr (buildGraph proto_listing no_commit 300 [''__proto__'']))))
     = [(''r'', [''__proto__''])] \<and>
   totalCommits (stats_meta (meta (projr (buildGraph proto_listing no_commit 300 [''__proto__'']))))
     = 1 \<and>
   branchCounts (stats_meta (meta (projr (buildGraph proto_listing no_commit 300 [''__proto__''])))) ''__proto__''
     = None"
  by code_simp

text \<open>
  C8. A parent that cannot be fetched does not abort anything: the expander returns the
  commits it was given, unchanged and in their order, followed by commits that were fetched
  successfully for ids of the capped pool, with no id twice; every commit fetched for an id
  of the pool is represented by its id; an id whose fetch failed, unless a fetched commit
  carries it, becomes a placeholder of the graph built from the output; and whether the
  handler answers with a graph depends on the collection alone, not on the fetches. The
  handler calls the expander on \<^verbatim>\<open>uniqueCommits\<close>, whose ids are distinct
  (\<open>unique_commits_distinct\<close>).
\<close>

theorem ensureParents_tolerates_failures:
  assumes "distinct (map sha initialCommits)"
  shows "(\<exists>fetched.
           ensureParents initialCommits getCommit maxFetch = initialCommits @ fetched \<and>
           distinct (map sha (initialCommits @ fetched)) \<and>
           (\<forall>c \<in> set fetched. \<exists>p \<in> set (parentsToFetch initialCommits maxFetch). getCommit p = Some c) \<and>
           (\<forall>p \<in> set (parentsToFetch initialCommits maxFetch).
              case getCommit p of
                Some c \<Rightarrow> sha c \<in> sha ` set (initialCommits @ fetched)
              | None \<Rightarrow> p \<notin> sha ` set fetched \<longrightarrow>
                  (\<exists>n \<in> set (nodes (buildGraphFromCommits (initialCommits @ fetched) ctb)).
                     node_id n = p \<and> message n = ''(parent)'' \<and> parentShas n = []))) \<and>
         isl (buildGraph listCommits getCommit maxCommits branchTips) =
           isl (collectBranches listCommits maxCommits branchTips emptyCollector)"
    (is "?expanded \<and> ?survives")
proof -
  let ?pool = "parentsToFetch initialCommits maxFetch"
  let ?rs = "map getCommit ?pool"
  let ?m = "map (\<lambda>c. (sha c, c)) initialCommits"
  have by_sha: "bySha initialCommits = ?m"
    by (rule bySha_fresh [OF assms])
  from fold_addFetched [of ?rs "(bySha initialCommits, 0)"] obtain extra where
    e: "fst (fold addFetched ?rs (bySha initialCommits, 0)) = ?m @ extra"
       "\<forall>e \<in> set extra. Some (snd e) \<in> set ?rs \<and> fst e = sha (snd e)"
       "\<forall>c. Some c \<in> set ?rs \<longrightarrow> sha c \<in> fst ` set (?m @ extra)"
       "distinct (map fst (?m @ extra))"
    using bySha_distinct [of initialCommits] unfolding by_sha by auto
  let ?f = "map snd extra"
  have out: "ensureParents initialCommits getCommit maxFetch = initialCommits @ ?f"
    by (simp add: ensureParents_fold e(1) comp_def)
  have keyed: "\<forall>x \<in> set (?m @ extra). sha (snd x) = fst x"
    using e(2) by auto
  have keys: "map sha (initialCommits @ ?f) = map fst (?m @ extra)"
    using e(2) by (auto simp: comp_def)
  have d: "distinct (map sha (initialCommits @ ?f))"
    using e(4) by (simp only: keys)
  have f: "\<forall>c \<in> set ?f. \<exists>p \<in> set ?pool. getCommit p = Some c"
  proof
    fix c assume "c \<in> set ?f"
    then obtain x where "x \<in> set extra" "c = snd x" by auto
    with e(2) have "Some c \<in> set ?rs" by simp
    then show "\<exists>p \<in> set ?pool. getCommit p = Some c" by auto
  qed
  have shas: "fst ` set (?m @ extra) = sha ` set (initialCommits @ ?f)"
    using keys by (metis set_map)
  have "case getCommit p of
          Some c \<Rightarrow> sha c \<in> sha ` set (initialCommits @ ?f)
        | None \<Rightarrow> p \<notin> sha ` set ?f \<longrightarrow>
            (\<exists>n \<in> set (nodes (buildGraphFromCommits (initialCommits @ ?f) ctb)).
               node_id n = p \<and> message n = ''(parent)'' \<and> parentShas n = [])"
    if p: "p \<in> set ?pool" for p
  proof (cases "getCommit p")
    case (Some c)
    then have "Some c \<in> set ?rs" using p by (force simp: image_iff)
    with e(3) shas Some show ?thesis by simp
  next
    case None
    from parentsToFetch_subset [OF p] obtain c where
      c: "c \<in> set initialCommits" "p \<in> set (parentIds c)" "p \<notin> sha ` set initialCommits"
      by blast
    {
      assume "p \<notin> sha ` set ?f"
      then have "p \<notin> sha ` set (initialCommits @ ?f)" using c(3) by auto
      from placeholder_for_unfetched_parent_aux [OF _ c(2) this, of ctb] c(1)
      have "\<exists>n \<in> set (nodes (buildGraphFromCommits (initialCommits @ ?f) ctb)).
               node_id n = p \<and> message n = ''(parent)'' \<and> parentShas n = []"
        by auto
    }
    with None show ?thesis by simp
  qed
  with out d f have ?expanded
    by (intro exI [of _ ?f]) simp
  then show ?thesis
    by (simp only: buildGraph_isl simp_thms)
qed

theorem ensureParents_tolerates_failures_witness:
  "distinct (map sha [demo_commit ''c'' [''f'', ''q'']]) \<and>
   ensureParents [demo_commit ''c'' [''f'', ''q'']] only_f 200 =
     [demo_commit ''c'' [''f'', ''q''], demo_commit ''f'' [''p'']] \<and>
   only_f ''q'' = None \<and>
   (\<exists>n \<in> set (nodes (buildGraphFromCommits
                       [demo_commit ''c'' [''f'', ''q''], demo_commit ''f'' [''p'']] Map.empty)).
      node_id n = ''q'' \<and> message n = ''(parent)'' \<and> parentShas n = [])"
proof -
  let ?c = "demo_commit ''c'' [''f'', ''q'']"
  let ?f = "demo_commit ''f'' [''p'']"
  have h: "distinct (map sha [?c])" by simp
  have out: "ensureParents [?c] only_f 200 = [?c, ?f]" by code_simp
  have pool: "parentsToFetch [?c] 200 = [''f'', ''q'']" by code_simp
  have q: "only_f ''q'' = None" by (simp add: only_f_def)
  from ensureParents_tolerates_failures [OF h, of only_f 200 Map.empty] obtain fetched where
    f: "ensureParents [?c] only_f 200 = [?c] @ fetched"
       "\<forall>p \<in> set (parentsToFetch [?c] 200).
          case only_f p of
            Some c \<Rightarrow> sha c \<in> sha ` set ([?c] @ fetched)
          | None \<Rightarrow> p \<notin> sha ` set fetched \<longrightarrow>
              (\<exists>n \<in> set (nodes (buildGraphFromCommits ([?c] @ fetched) Map.empty)).
                 node_id n = p \<and> message n = ''(parent)'' \<and> parentShas n = [])"
    by blast
  from f(1) out have fetched: "fetched = [?f]" by simp
  have "''q'' \<notin> sha ` set fetched" by (simp add: fetched demo_commit_def)
  with f(2) pool q have
    "\<exists>n \<in> set (nodes (buildGraphFromCommits ([?c] @ fetched) Map.empty)).
       node_id n = ''q'' \<and> message n = ''(parent)'' \<and> parentShas n = []"
    by simp
  with h out q show ?thesis by (simp add: fetched)
qed

text \<open>
  C9. A node of the graph whose id is not the id of any commit handed to the builder, that
  is, a placeholder, has no \<^verbatim>\<open>parentShas\<close> and its \<^verbatim>\<open>isMerge\<close> flag is false, whatever the
  commit behind that id looks like at the provider.
\<close>

theorem placeholder_never_merge:
  assumes "n \<in> set (nodes (buildGraphFromCommits cs ctb))" and "node_id n \<notin> sha ` set cs"
  shows "parentShas n = [] \<and> \<not> isMerge n"
proof -
  from graph_node_origin [OF assms(1)] obtain k n2 n3 where
    o: "map_of (linked cs ctb) k = Some n2" "grown n2 n3" "n = classify n3"
    by blast
  have id: "node_id n = k"
    using linked_cases [OF o(1)] grown_fields(1) [OF o(2)] o(3) by (simp add: classify_fields)
  then have "parentShas n2 = []"
    using linked_cases [OF o(1)] assms(2) by simp
  then show ?thesis
    using grown_fields(5) [OF o(2)] o(3) by (simp add: classify_fields)
qed

theorem placeholder_never_merge_witness:
  "nodes (buildGraphFromCommits [demo_commit ''c'' [''p'', ''q'']] Map.empty) ! 1
     \<in> set (nodes (buildGraphFromCommits [demo_commit ''c'' [''p'', ''q'']] Map.empty)) \<and>
   node_id (nodes (buildGraphFromCommits [demo_commit ''c'' [''p'', ''q'']] Map.empty) ! 1)
     \<notin> sha ` set [demo_commit ''c'' [''p'', ''q'']] \<and>
   parentShas (nodes (buildGraphFromCommits [demo_commit ''c'' [''p'', ''q'']] Map.empty) ! 1) = [] \<and>
   \<not> isMerge (nodes (buildGraphFromCommits [demo_commit ''c'' [''p'', ''q'']] Map.empty) ! 1)"
proof -
  let ?cs = "[demo_commit ''c'' [''p'', ''q'']]"
  let ?g = "buildGraphFromCommits ?cs Map.empty"
  have ev: "length (nodes ?g) = 3 \<and> node_id (nodes ?g ! 1) = ''p''"
    by code_simp
  then have h1: "nodes ?g ! 1 \<in> set (nodes ?g)" by simp
  have h2: "node_id (nodes ?g ! 1) \<notin> sha ` set ?cs"
    using ev by (simp add: demo_commit_def)
  from placeholder_never_merge [OF h1 h2] h1 h2 show ?thesis by simp
qed

text \<open>
  C10. With \<^verbatim>\<open>maxCommits\<close> zero or negative the collection loop accepts no commit, whatever
  the provider would return (it is not even asked), and the response is a success whose
  graph has no node and no link and whose \<^verbatim>\<open>stats.totalCommits\<close> is 0.
\<close>

theorem zero_budget_empty_graph:
  assumes "maxCommits \<le> 0"
  shows "\<exists>p. buildGraph listCommits getCommit maxCommits branchTips = Inr p \<and>
             nodes (graph p) = [] \<and> links (graph p) = [] \<and>
             totalCommits (stats_meta (meta p)) = 0 \<and> commits (meta p) = 0"
proof -
  have "maxCommits \<le> int (length (allCommits emptyCollector))"
    using assms by (simp add: emptyCollector_def)
  from collectBranches_exhausted [OF this, of listCommits branchTips]
  obtain st where st: "collectBranches listCommits maxCommits branchTips emptyCollector = Inr st"
    and empty: "allCommits st = []"
    by (cases branchTips) (simp_all add: emptyCollector_def)
  show ?thesis
    by (simp add: buildGraph_def st empty bySha_def ensureParents_Nil
                  buildGraphFromCommits_Nil computeStats_def)
qed

theorem zero_budget_empty_graph_witness:
  "(0::int) \<le> 0 \<and>
   (\<exists>p. buildGraph forked_listing no_commit 0 [''a'', ''b''] = Inr p \<and>
        nodes (graph p) = [] \<and> links (graph p) = [] \<and>
        totalCommits (stats_meta (meta p)) = 0 \<and> commits (meta p) = 0)"
proof -
  have h: "(0::int) \<le> 0" by simp
  from zero_budget_empty_graph [OF h, of forked_listing no_commit "[''a'', ''b'']"] h
  show ?thesis by simp
qed

end
